theory Spec2Isabelle
  imports Complex_Main "HOL-Library.Word" "HOL-Library.List_Lexorder" "HOL-Library.Char_ord"
begin

unbundle bit_operations_syntax

section \<open>Data model\<close>

text \<open>
  A shallow embedding of the terminal file manager (the version with pins and the
  asynchronous preview; \<^verbatim>\<open>file_manager.cpp\<close> is its predecessor and shares
  \<^verbatim>\<open>formatSize\<close>, \<^verbatim>\<open>loadDirectory\<close>, \<^verbatim>\<open>goUp\<close> and the
  overwrite guard of \<^verbatim>\<open>handlePaste\<close> with it, text for text).

  A \<^verbatim>\<open>fs::path\<close> is held as its text; the paths of the program come from
  \<^verbatim>\<open>current_path\<close>, from directory iteration and from \<^verbatim>\<open>parent_path\<close>, so
  equality of paths is equality of their text. \<^verbatim>\<open>std::string\<close> is a byte string,
  ordered by \<^verbatim>\<open>operator<\<close> as lists of unsigned bytes (the order of
  \<open>List_Lexorder\<close> over \<open>Char_ord\<close>).
\<close>

type_synonym path = string

record Clipboard =
  paths :: "path list"
  isCut :: bool

record FileEntry =
  path :: path
  name :: string
  is_directory :: bool
  size_bytes :: "64 word"
  extension :: string

datatype PreviewType = NONE | IMAGE | TEXT

text \<open>
  A detached worker thread of \<^verbatim>\<open>startAsyncPreview\<close>: the values its lambda
  captured, and how far it has run. A worker first computes its payload (\<open>Computing\<close>),
  then runs the block under \<^verbatim>\<open>previewMutex\<close> (after which it is \<open>Committed\<close>),
  then tests the request id once more to raise \<^verbatim>\<open>imageReady\<close> (\<open>Finished\<close>).
\<close>

datatype stage = Computing | Committed | Finished

record worker =
  reqId :: int
  job_path :: string
  job_type :: PreviewType
  job_height :: int
  job_width :: int
  job_stage :: stage

text \<open>The geometry of an ncurses window (\<^verbatim>\<open>getmaxyx\<close>, \<^verbatim>\<open>getbegyx\<close>).\<close>

record window =
  maxy :: int
  maxx :: int
  begy :: int
  begx :: int

text \<open>
  The fields of \<^verbatim>\<open>class FileManager\<close> that the functions below read or write.
  \<^verbatim>\<open>requestID\<close> is a \<^verbatim>\<open>long long\<close> that only ever grows by one per dispatch
  from 0; it is an \<open>int\<close> here (reaching \<open>2^63\<close> dispatches is outside the model).
  \<open>threads\<close> lists the workers spawned so far, in the order of their dispatch.
\<close>

record fm =
  currentPath :: path
  currentFiles :: "FileEntry list"
  parentFiles :: "FileEntry list"
  multiSelection :: "path set"
  selectedIndex :: nat
  scrollOffset :: nat
  clipboard :: Clipboard
  statusMessage :: string
  showHidden :: bool
  cachedBase64 :: string
  cachedTextLines :: "string list"
  cachedPath :: string
  requestedPath :: string
  requestID :: int
  imageReady :: bool
  lastWasDirectRender :: bool
  height :: int
  winPreview :: window
  threads :: "worker list"

text \<open>
  What C++ leaves undefined or lets escape: an index past the end of a vector, and an
  exception that no handler of the program catches (the process terminates).
\<close>

datatype fault = OutOfRange | Uncaught

text \<open>
  The state the member initialisers of \<^verbatim>\<open>class FileManager\<close> give, before the
  constructor loads the working directory; the size of the terminal and the geometry of
  the preview window come from ncurses.
\<close>

definition member_init :: "int \<Rightarrow> window \<Rightarrow> fm" where
  "member_init h w =
     \<lparr>currentPath = [], currentFiles = [], parentFiles = [], multiSelection = {},
      selectedIndex = 0, scrollOffset = 0, clipboard = \<lparr>paths = [], isCut = False\<rparr>,
      statusMessage = [], showHidden = False, cachedBase64 = [], cachedTextLines = [],
      cachedPath = [], requestedPath = [], requestID = 0, imageReady = False,
      lastWasDirectRender = False, height = h, winPreview = w, threads = []\<rparr>"

section \<open>formatSize\<close>

text \<open>
  \<^verbatim>\<open>while (dSize > 1024 && i < 4) { dSize /= 1024; i++; }\<close>
  The \<^verbatim>\<open>double\<close> is a real number here: dividing by 1024 is exact in binary
  floating point, and the conversion \<^verbatim>\<open>static_cast<double>(size)\<close>, which rounds,
  is the parameter \<open>to_double\<close>. \<^verbatim>\<open>snprintf("%.1f")\<close> is the parameter
  \<open>printf_1f\<close>.
\<close>

definition units :: "string list" where
  "units = [''B'', ''KB'', ''MB'', ''GB'', ''TB'']"

function formatSize_loop :: "real \<Rightarrow> int \<Rightarrow> real \<times> int" where
  "formatSize_loop dSize i =
     (if dSize > 1024 \<and> i < 4 then formatSize_loop (dSize / 1024) (i + 1) else (dSize, i))"
  by pat_completeness auto
termination
  by (relation "measure (\<lambda>(dSize, i). nat (4 - i))") auto

declare formatSize_loop.simps [simp del]

text \<open>Reading \<^verbatim>\<open>units[i]\<close>: outside \<open>0..4\<close> the C++ is undefined.\<close>

definition units_at :: "int \<Rightarrow> fault + string" where
  "units_at i = (if 0 \<le> i \<and> i < int (length units) then Inr (units ! nat i) else Inl OutOfRange)"

definition formatSize :: "(64 word \<Rightarrow> real) \<Rightarrow> (real \<Rightarrow> string) \<Rightarrow> 64 word \<Rightarrow> fault + string" where
  "formatSize to_double printf_1f sz =
     (case formatSize_loop (to_double sz) 0 of
        (dSize, i) \<Rightarrow>
          (case units_at i of
             Inl e \<Rightarrow> Inl e
           | Inr u \<Rightarrow> Inr (printf_1f dSize @ '' '' @ u)))"

section \<open>Selection and clipboard\<close>

definition setStatus :: "string \<Rightarrow> fm \<Rightarrow> fm" where
  "setStatus msg s = s\<lparr>statusMessage := msg\<rparr>"

text \<open>
  \<^verbatim>\<open>currentFiles[selectedIndex]\<close> is read only after the test for an empty catalog;
  an index past the end is \<open>OutOfRange\<close>. A \<^verbatim>\<open>std::set\<close> is iterated in its order.
\<close>

definition yank_targets :: "fm \<Rightarrow> fault + path list" where
  "yank_targets s =
     (if multiSelection s = {} then
        (if selectedIndex s < length (currentFiles s)
         then Inr [path (currentFiles s ! selectedIndex s)]
         else Inl OutOfRange)
      else Inr (sorted_list_of_set (multiSelection s)))"

definition handleCopy :: "fm \<Rightarrow> fault + fm" where
  "handleCopy s =
     (if currentFiles s = [] then Inr s
      else case yank_targets s of
        Inl e \<Rightarrow> Inl e
      | Inr ps \<Rightarrow>
          Inr ((setStatus ''Yanked items'' (s\<lparr>clipboard := \<lparr>paths = ps, isCut = False\<rparr>\<rparr>))
                 \<lparr>multiSelection := {}\<rparr>))"

definition handleCut :: "fm \<Rightarrow> fault + fm" where
  "handleCut s =
     (if currentFiles s = [] then Inr s
      else case yank_targets s of
        Inl e \<Rightarrow> Inl e
      | Inr ps \<Rightarrow>
          Inr ((setStatus ''Cut items'' (s\<lparr>clipboard := \<lparr>paths = ps, isCut = True\<rparr>\<rparr>))
                 \<lparr>multiSelection := {}\<rparr>))"

section \<open>base64 and the graphics encoder\<close>

definition base64_chars :: string where
  "base64_chars = ''ABCDEFGHIJKLMNOPQRSTUVWXYZabcdefghijklmnopqrstuvwxyz0123456789+/''"

text \<open>
  The four values \<^verbatim>\<open>char_array_4[0..3]\<close> computed from \<^verbatim>\<open>char_array_3[0..2]\<close>.
  The C++ computes them in \<^verbatim>\<open>int\<close> and stores them in an \<^verbatim>\<open>unsigned char\<close>;
  every one is below 64, so nothing is cut off.
\<close>

definition char_array_4 :: "8 word \<Rightarrow> 8 word \<Rightarrow> 8 word \<Rightarrow> 8 word list" where
  "char_array_4 a b c =
     [drop_bit 2 (a AND 0xfc),
      push_bit 4 (a AND 0x03) + drop_bit 4 (b AND 0xf0),
      push_bit 2 (b AND 0x0f) + drop_bit 6 (c AND 0xc0),
      c AND 0x3f]"

definition base64_char :: "8 word \<Rightarrow> char" where
  "base64_char v = base64_chars ! unat v"

text \<open>
  The \<^verbatim>\<open>while (len--)\<close> loop: \<open>buf\<close> is the filled part of \<^verbatim>\<open>char_array_3\<close>
  (its length is the counter \<^verbatim>\<open>i\<close>), \<open>ret\<close> the string built so far. After the
  last byte the \<^verbatim>\<open>if (i)\<close> block pads the group with zero bytes, emits \<open>i + 1\<close>
  characters and fills up with \<^verbatim>\<open>=\<close>.
\<close>

definition base64_tail :: "8 word list \<Rightarrow> string" where
  "base64_tail buf =
     (if buf = [] then []
      else (let i = length buf;
                padded = buf @ replicate (3 - i) 0
            in map base64_char (take (i + 1) (char_array_4 (padded ! 0) (padded ! 1) (padded ! 2)))
               @ replicate (3 - i) (CHR ''='')))"

fun base64_loop :: "8 word list \<Rightarrow> 8 word list \<Rightarrow> string \<Rightarrow> string" where
  "base64_loop [] buf ret = ret @ base64_tail buf"
| "base64_loop (x # xs) buf ret =
     (let buf' = buf @ [x]
      in if length buf' = 3
         then base64_loop xs [] (ret @ map base64_char (char_array_4 (buf' ! 0) (buf' ! 1) (buf' ! 2)))
         else base64_loop xs buf' ret)"

definition base64_encode :: "8 word list \<Rightarrow> string" where
  "base64_encode bytes = base64_loop bytes [] []"

text \<open>Decimal output of \<^verbatim>\<open>std::cout << int\<close>.\<close>

function show_nat :: "nat \<Rightarrow> string" where
  "show_nat n = (if n < 10 then [char_of (48 + n)] else show_nat (n div 10) @ [char_of (48 + n mod 10)])"
  by pat_completeness auto
termination
  by (relation "measure id") auto

declare show_nat.simps [simp del]

definition show_int :: "int \<Rightarrow> string" where
  "show_int i = (if i < 0 then ''-'' @ show_nat (nat (- i)) else show_nat (nat i))"

definition esc :: char where
  "esc = CHR 0x1B"

definition chunk_size :: nat where
  "chunk_size = 4096"

text \<open>
  One pass of the loop of \<^verbatim>\<open>sendKittyGraphics\<close> writes one escape sequence: whether it
  was the pass at \<^verbatim>\<open>offset == 0\<close> (which writes the placement keys), the value of
  \<^verbatim>\<open>isLast\<close>, and \<^verbatim>\<open>b64Data.substr(offset, chunkLen)\<close>. \<open>frame\<close> is the text
  the pass writes to \<^verbatim>\<open>std::cout\<close>.
\<close>

record chunk =
  atStart :: bool
  isLast :: bool
  chunk_data :: string

definition frame :: "chunk \<Rightarrow> string" where
  "frame c =
     [esc] @ ''_G''
     @ (if atStart c then ''a=T,f=100,t=d,q=2,'' else [])
     @ ''m='' @ (if isLast c then ''0'' else ''1'') @ '';''
     @ chunk_data c
     @ [esc, CHR 0x5C]"

function kitty_chunks :: "string \<Rightarrow> nat \<Rightarrow> chunk list" where
  "kitty_chunks b64Data offset =
     (let total = length b64Data
      in if offset < total then
           (let chunkLen = min chunk_size (total - offset);
                last_one = (offset + chunkLen \<ge> total)
            in \<lparr>atStart = (offset = 0), isLast = last_one,
                 chunk_data = take chunkLen (drop offset b64Data)\<rparr>
               # kitty_chunks b64Data (offset + chunkLen))
         else [])"
  by pat_completeness auto
termination
  by (relation "measure (\<lambda>(b64Data, offset). length b64Data - offset)")
     (auto simp: chunk_size_def min_def)

declare kitty_chunks.simps [simp del]

definition sendKittyGraphics :: "string \<Rightarrow> int \<Rightarrow> int \<Rightarrow> string" where
  "sendKittyGraphics b64Data pY pX =
     [esc] @ ''['' @ show_int (pY + 7) @ '';'' @ show_int (pX + 2) @ ''H''
     @ concat (map frame (kitty_chunks b64Data 0))"

section \<open>The asynchronous preview\<close>

text \<open>
  \<^verbatim>\<open>startAsyncPreview\<close> on the UI thread: the counter grows, and a thread is detached
  that holds a copy of the new value.
\<close>

definition startAsyncPreview :: "string \<Rightarrow> PreviewType \<Rightarrow> int \<Rightarrow> int \<Rightarrow> fm \<Rightarrow> fm" where
  "startAsyncPreview p ty previewHeight previewWidth s =
     (let s1 = s\<lparr>requestID := requestID s + 1, requestedPath := p, imageReady := False\<rparr>
      in s1\<lparr>threads := threads s1 @
               [\<lparr>reqId = requestID s1, job_path = p, job_type = ty,
                 job_height = previewHeight, job_width = previewWidth,
                 job_stage = Computing\<rparr>]\<rparr>)"

text \<open>
  The block of worker \<open>k\<close> under \<^verbatim>\<open>previewMutex\<close>. \<open>b64\<close> and \<open>lines\<close> are what the
  worker computed from the transcoder, the highlighter or the file before it took the lock.
\<close>

definition worker_commit :: "nat \<Rightarrow> string \<Rightarrow> string list \<Rightarrow> fm \<Rightarrow> fm" where
  "worker_commit k b64 lines s =
     (let w = threads s ! k;
          s1 = (if reqId w = requestID s then
                  (if job_type w = IMAGE then s\<lparr>cachedBase64 := b64\<rparr>
                   else s\<lparr>cachedTextLines := lines\<rparr>)\<lparr>cachedPath := job_path w\<rparr>
                else s)
      in s1\<lparr>threads := (threads s1)[k := w\<lparr>job_stage := Committed\<rparr>]\<rparr>)"

text \<open>The worker's last statement, outside the lock.\<close>

definition worker_signal :: "nat \<Rightarrow> fm \<Rightarrow> fm" where
  "worker_signal k s =
     (let w = threads s ! k;
          s1 = (if reqId w = requestID s then s\<lparr>imageReady := True\<rparr> else s)
      in s1\<lparr>threads := (threads s1)[k := w\<lparr>job_stage := Finished\<rparr>]\<rparr>)"

text \<open>
  An execution is a sequence of atomic steps of the UI thread and of the workers, in any
  interleaving. A step of a worker that does not exist, or that has already passed that
  point, is not a step of the program: the run has no result (\<open>None\<close>).
\<close>

datatype step =
    Dispatch string PreviewType int int
  | Commit nat string "string list"
  | Signal nat

fun exec :: "step \<Rightarrow> fm \<Rightarrow> fm option" where
  "exec (Dispatch p ty h w) s = Some (startAsyncPreview p ty h w s)"
| "exec (Commit k b64 lines) s =
     (if k < length (threads s) \<and> job_stage (threads s ! k) = Computing
      then Some (worker_commit k b64 lines s) else None)"
| "exec (Signal k) s =
     (if k < length (threads s) \<and> job_stage (threads s ! k) = Committed
      then Some (worker_signal k s) else None)"

fun run :: "step list \<Rightarrow> fm \<Rightarrow> fm option" where
  "run [] s = Some s"
| "run (e # es) s = (case exec e s of None \<Rightarrow> None | Some s' \<Rightarrow> run es s')"

text \<open>The path of the last request dispatched in a schedule.\<close>

fun last_dispatched :: "step list \<Rightarrow> string option" where
  "last_dispatched [] = None"
| "last_dispatched (Dispatch p ty h w # es) =
     (case last_dispatched es of None \<Rightarrow> Some p | Some q \<Rightarrow> Some q)"
| "last_dispatched (e # es) = last_dispatched es"

text \<open>The single cache slot.\<close>

definition cache_slot :: "fm \<Rightarrow> string \<times> string \<times> string list" where
  "cache_slot s = (cachedPath s, cachedBase64 s, cachedTextLines s)"

text \<open>
  What every reachable state of the pipeline satisfies: the counter is the number of
  workers spawned, worker \<open>k\<close> holds the id \<open>k + 1\<close>, the slot holds the path of the
  newest worker once that worker has committed, and \<^verbatim>\<open>requestedPath\<close> is the newest
  worker's path.
\<close>

definition pipeline_inv :: "fm \<Rightarrow> bool" where
  "pipeline_inv s \<longleftrightarrow>
     requestID s = int (length (threads s))
     \<and> (\<forall>k<length (threads s). reqId (threads s ! k) = int k + 1)
     \<and> (threads s \<noteq> [] \<and> job_stage (last (threads s)) \<noteq> Computing
          \<longrightarrow> cachedPath s = job_path (last (threads s)))
     \<and> (threads s \<noteq> [] \<longrightarrow> requestedPath s = job_path (last (threads s)))"

section \<open>The file system\<close>

text \<open>
  The calls the program makes into \<^verbatim>\<open>std::filesystem\<close>, over a state \<open>'fs\<close> of the
  disk. The library is not part of the repository, so each call is a parameter:
  \<^item> \<open>filename\<close>, \<open>path_extension\<close>, \<open>parent_path\<close>, \<open>append_path\<close> are
    \<^verbatim>\<open>path::filename\<close>, \<^verbatim>\<open>path::extension\<close>, \<^verbatim>\<open>path::parent_path\<close> and
    \<^verbatim>\<open>operator/\<close>;
  \<^item> \<open>directory_iterator\<close> gives the entries an iteration yields, in its order, and
    whether the iteration then throws (on opening the directory, when no entry was
    yielded, or on advancing);
  \<^item> \<open>fs_is_directory\<close>, \<open>fs_exists\<close> and \<open>file_size\<close> are \<open>None\<close> when the call
    throws \<^verbatim>\<open>filesystem_error\<close>;
  \<^item> \<open>fs_rename\<close> is \<open>None\<close> when the rename throws (the disk is then as before);
  \<^item> \<open>fs_copy\<close> (its flag is \<^verbatim>\<open>copy_options::recursive\<close>) and \<open>fs_remove_all\<close>
    give the disk they leave and whether they returned (\<open>False\<close>: they threw, possibly
    after part of the work);
  \<^item> \<open>read_file\<close> is the content an \<^verbatim>\<open>ifstream\<close> reads, \<open>None\<close> when the file
    cannot be opened.
\<close>

record 'fs filesystem =
  filename :: "path \<Rightarrow> string"
  path_extension :: "path \<Rightarrow> string"
  parent_path :: "path \<Rightarrow> path"
  append_path :: "path \<Rightarrow> path \<Rightarrow> path"
  directory_iterator :: "'fs \<Rightarrow> path \<Rightarrow> path list \<times> bool"
  fs_is_directory :: "'fs \<Rightarrow> path \<Rightarrow> bool option"
  fs_exists :: "'fs \<Rightarrow> path \<Rightarrow> bool option"
  file_size :: "'fs \<Rightarrow> path \<Rightarrow> 64 word option"
  fs_rename :: "'fs \<Rightarrow> path \<Rightarrow> path \<Rightarrow> 'fs option"
  fs_copy :: "'fs \<Rightarrow> path \<Rightarrow> path \<Rightarrow> bool \<Rightarrow> 'fs \<times> bool"
  fs_remove_all :: "'fs \<Rightarrow> path \<Rightarrow> 'fs \<times> bool"
  read_file :: "'fs \<Rightarrow> path \<Rightarrow> string option"

definition has_parent_path :: "'fs filesystem \<Rightarrow> path \<Rightarrow> bool" where
  "has_parent_path env p \<longleftrightarrow> parent_path env p \<noteq> []"

definition VIDEO_EXTS :: "string set" where
  "VIDEO_EXTS = {''.mp4'', ''.mkv'', ''.avi'', ''.mov'', ''.flv'', ''.wmv'', ''.webm''}"

definition IMAGE_EXTS :: "string set" where
  "IMAGE_EXTS = {''.png'', ''.jpg'', ''.jpeg'', ''.gif'', ''.bmp'', ''.webp'', ''.svg'', ''.tiff''}"

definition CODE_EXTS :: "string set" where
  "CODE_EXTS = {''.cpp'', ''.h'', ''.hpp'', ''.c'', ''.cc'', ''.py'', ''.js'',
                ''.ts'', ''.rs'', ''.go'', ''.java'', ''.rb'', ''.php'', ''.html'',
                ''.css'', ''.scss'', ''.json'', ''.xml'', ''.yaml'', ''.yml'', ''.toml'',
                ''.ini'', ''.sh'', ''.bash'', ''.zsh'', ''.lua'', ''.md'', ''.txt'',
                ''.conf'', ''.diff'', ''.patch'', ''.sql'', ''.cmake'', ''.make'', ''.dockerfile''}"

text \<open>\<^verbatim>\<open>::tolower\<close> on the bytes of the extension (the letters of ASCII).\<close>

definition tolower :: "char \<Rightarrow> char" where
  "tolower c = (if CHR ''A'' \<le> c \<and> c \<le> CHR ''Z'' then char_of (of_char c + (32::nat)) else c)"

text \<open>
  The constructor \<^verbatim>\<open>FileEntry(const fs::path &p)\<close>. \<^verbatim>\<open>fs::is_directory(p)\<close> is
  outside its \<^verbatim>\<open>try\<close>, so its exception leaves the constructor (\<open>None\<close>); the one of
  \<^verbatim>\<open>fs::file_size\<close> is caught and the size is 0.
\<close>

definition FileEntry_new :: "'fs filesystem \<Rightarrow> 'fs \<Rightarrow> path \<Rightarrow> FileEntry option" where
  "FileEntry_new env fs p =
     (case fs_is_directory env fs p of
        None \<Rightarrow> None
      | Some d \<Rightarrow>
          Some \<lparr>path = p, name = filename env p, is_directory = d,
                size_bytes = (if d then 0 else case file_size env fs p of None \<Rightarrow> 0 | Some n \<Rightarrow> n),
                extension = map tolower (path_extension env p)\<rparr>)"

section \<open>The entry catalog\<close>

text \<open>
  \<^verbatim>\<open>entry.path().filename().string().front() == '.'\<close>. A directory iteration yields
  no empty file name (\<^verbatim>\<open>front()\<close> of one is undefined).
\<close>

definition starts_with_dot :: "string \<Rightarrow> bool" where
  "starts_with_dot n = (case n of [] \<Rightarrow> False | c # cs \<Rightarrow> c = CHR ''.'')"

text \<open>
  One \<^verbatim>\<open>for\<close> loop of \<^verbatim>\<open>loadDirectory\<close> over the entries an iteration yields:
  \<open>want\<close> says whether the loop keeps the directories or the others. The result is
  \<^verbatim>\<open>target\<close> and whether an exception left the loop.
\<close>

fun load_pass ::
  "'fs filesystem \<Rightarrow> 'fs \<Rightarrow> bool \<Rightarrow> bool \<Rightarrow> path list \<Rightarrow> FileEntry list \<Rightarrow> FileEntry list \<times> bool" where
  "load_pass env fs shown want [] target = (target, False)"
| "load_pass env fs shown want (e # es) target =
     (if \<not> shown \<and> starts_with_dot (filename env e) then load_pass env fs shown want es target
      else case fs_is_directory env fs e of
             None \<Rightarrow> (target, True)
           | Some d \<Rightarrow>
               if d = want then
                 (case FileEntry_new env fs e of
                    None \<Rightarrow> (target, True)
                  | Some entry \<Rightarrow> load_pass env fs shown want es (target @ [entry]))
               else load_pass env fs shown want es target)"

text \<open>
  The \<^verbatim>\<open>try\<close> block of \<^verbatim>\<open>loadDirectory\<close>, from the cleared \<^verbatim>\<open>target\<close>: what
  \<^verbatim>\<open>target\<close> holds at its end, and whether an exception ended it. The handler is
  empty, so an exception leaves \<^verbatim>\<open>target\<close> as it is at that point.
  \<^verbatim>\<open>std::sort\<close> by \<^verbatim>\<open>a.name < b.name\<close> is \<open>sort_key name\<close> (the order it gives to
  entries of equal name is not specified; a directory holds no two of them).
\<close>

definition load_try :: "'fs filesystem \<Rightarrow> 'fs \<Rightarrow> bool \<Rightarrow> path \<Rightarrow> FileEntry list \<times> bool" where
  "load_try env fs shown p =
     (case directory_iterator env fs p of
        (es, failed) \<Rightarrow>
          (case load_pass env fs shown True es [] of
             (dirs, True) \<Rightarrow> (dirs, True)
           | (dirs, False) \<Rightarrow>
               if failed then (dirs, True)
               else
                 (let target = sort_key name dirs;
                      split = length target
                  in case directory_iterator env fs p of
                       (es2, failed2) \<Rightarrow>
                         (case load_pass env fs shown False es2 target of
                            (t, True) \<Rightarrow> (t, True)
                          | (t, False) \<Rightarrow>
                              if failed2 then (t, True)
                              else (take split t @ sort_key name (drop split t), False)))))"

text \<open>What \<^verbatim>\<open>loadDirectory\<close> leaves in \<^verbatim>\<open>target\<close>, and whether its handler ran.\<close>

definition load_target :: "'fs filesystem \<Rightarrow> 'fs \<Rightarrow> bool \<Rightarrow> path \<Rightarrow> FileEntry list" where
  "load_target env fs shown p = fst (load_try env fs shown p)"

definition load_caught :: "'fs filesystem \<Rightarrow> 'fs \<Rightarrow> bool \<Rightarrow> path \<Rightarrow> bool" where
  "load_caught env fs shown p = snd (load_try env fs shown p)"

definition loadDirectory :: "'fs filesystem \<Rightarrow> 'fs \<Rightarrow> path \<Rightarrow> fm \<Rightarrow> FileEntry list \<times> fm" where
  "loadDirectory env fs p s = (load_target env fs (showHidden s) p, s\<lparr>multiSelection := {}\<rparr>)"

definition loadParent :: "'fs filesystem \<Rightarrow> 'fs \<Rightarrow> fm \<Rightarrow> fm" where
  "loadParent env fs s =
     (if has_parent_path env (currentPath s) \<and> currentPath s \<noteq> parent_path env (currentPath s)
      then (case loadDirectory env fs (parent_path env (currentPath s)) s of
              (target, s1) \<Rightarrow> s1\<lparr>parentFiles := target\<rparr>)
      else s\<lparr>parentFiles := []\<rparr>)"

definition reloadAll :: "'fs filesystem \<Rightarrow> 'fs \<Rightarrow> fm \<Rightarrow> fm" where
  "reloadAll env fs s =
     (case loadDirectory env fs (currentPath s) s of
        (target, s1) \<Rightarrow> loadParent env fs (s1\<lparr>currentFiles := target\<rparr>))"

section \<open>Drawing\<close>

text \<open>
  What a drawing function puts on the terminal, in order: the escape sequence of
  \<^verbatim>\<open>clearDirectRender\<close>; the scrub of the preview window (\<^verbatim>\<open>wclear\<close>, \<^verbatim>\<open>box\<close> and
  the title); \<^verbatim>\<open>wrefresh\<close>; a \<^verbatim>\<open>mvwprintw\<close> at a row and column; the inline listing
  of a directory and the synchronous preview of a file of no known type, both read from
  the disk and not from the cache; and the two paintings of \<^verbatim>\<open>drawFromCache\<close>: the bytes
  \<^verbatim>\<open>sendKittyGraphics\<close> writes for \<^verbatim>\<open>cachedBase64\<close>, and the lines of
  \<^verbatim>\<open>cachedTextLines\<close>, each with the row and column it is written at.
\<close>

datatype paint =
    DeleteImages
  | Scrub
  | Refresh
  | Print int int string
  | Listing path
  | RawPreview path
  | CacheImage string
  | CacheText "(int \<times> int \<times> string) list"

definition clearDirectRender :: "fm \<Rightarrow> paint list \<times> fm" where
  "clearDirectRender s = ([DeleteImages], s\<lparr>lastWasDirectRender := False\<rparr>)"

definition drawFromCache :: "PreviewType \<Rightarrow> fm \<Rightarrow> paint list \<times> fm" where
  "drawFromCache ty s =
     (let pH = maxy (winPreview s); pY = begy (winPreview s); pX = begx (winPreview s)
      in if ty = IMAGE \<and> cachedBase64 s \<noteq> [] then
           ([CacheImage (sendKittyGraphics (cachedBase64 s) pY pX)], s\<lparr>lastWasDirectRender := True\<rparr>)
         else if ty = TEXT \<and> cachedTextLines s \<noteq> [] then
           (let lineLimit = min (int (length (cachedTextLines s))) (pH - 8)
            in ([CacheText (map (\<lambda>i. (pY + 7 + int i, pX + 2, cachedTextLines s ! i)) [0..<nat lineLimit])],
                s\<lparr>lastWasDirectRender := True\<rparr>))
         else ([], s))"

text \<open>
  \<^verbatim>\<open>drawPreview\<close> takes \<^verbatim>\<open>previewMutex\<close> only to compare \<^verbatim>\<open>cachedPath\<close> with the
  path of the entry under the cursor, and releases it before it paints:
  \<^verbatim>\<open>drawFromCache\<close> takes the lock again. \<open>drawPreview_begin\<close> is the function up to the
  release of the lock, with what is left to do; \<open>drawPreview_end\<close> is the rest.
\<close>

datatype plan = Nothing_left | Paint_cache PreviewType

definition drawPreview_begin ::
  "(64 word \<Rightarrow> real) \<Rightarrow> (real \<Rightarrow> string) \<Rightarrow> fm \<Rightarrow> fault + paint list \<times> fm \<times> plan" where
  "drawPreview_begin to_double printf_1f s =
     (case (if lastWasDirectRender s then clearDirectRender s else ([], s)) of
        (cleared, s1) \<Rightarrow>
          if currentFiles s1 = [] \<or> selectedIndex s1 \<ge> length (currentFiles s1)
          then Inr (cleared @ [Scrub, Refresh], s1, Nothing_left)
          else
            (let file = currentFiles s1 ! selectedIndex s1;
                 maxW = maxx (winPreview s1) - 4;
                 maxH = maxy (winPreview s1) - 2
             in case formatSize to_double printf_1f (size_bytes file) of
                  Inl e \<Rightarrow> Inl e
                | Inr sz \<Rightarrow>
                    (let details = cleared @ [Scrub, Print 2 2 ''Details:'',
                                              Print 3 2 (''Name: '' @ name file),
                                              Print 4 2 (''Size: '' @ sz)];
                         isVid = (extension file \<in> VIDEO_EXTS);
                         isImg = (extension file \<in> IMAGE_EXTS);
                         isCode = (extension file \<in> CODE_EXTS)
                     in if is_directory file then
                          Inr (details @ [Print 7 2 ''--- Content ---'', Listing (path file), Refresh],
                               s1, Nothing_left)
                        else if isVid \<or> isImg \<or> isCode then
                          (if cachedPath s1 = path file then
                             Inr (details @ [Refresh], s1,
                                  Paint_cache (if isCode then TEXT else IMAGE))
                           else if requestedPath s1 \<noteq> path file then
                             Inr (details @ [Refresh, Print 10 4 ''Loading...'', Refresh],
                                  startAsyncPreview (path file) (if isCode then TEXT else IMAGE)
                                    (maxH - 8) maxW s1,
                                  Nothing_left)
                           else Inr (details @ [Refresh], s1, Nothing_left))
                        else Inr (details @ [RawPreview (path file), Refresh], s1, Nothing_left))))"

definition drawPreview_end :: "plan \<Rightarrow> fm \<Rightarrow> paint list \<times> fm" where
  "drawPreview_end todo s = (case todo of Nothing_left \<Rightarrow> ([], s) | Paint_cache ty \<Rightarrow> drawFromCache ty s)"

text \<open>\<^verbatim>\<open>drawPreview\<close> when no worker runs between its two halves.\<close>

definition drawPreview ::
  "(64 word \<Rightarrow> real) \<Rightarrow> (real \<Rightarrow> string) \<Rightarrow> fm \<Rightarrow> fault + paint list \<times> fm" where
  "drawPreview to_double printf_1f s =
     (case drawPreview_begin to_double printf_1f s of
        Inl e \<Rightarrow> Inl e
      | Inr (painted, s1, todo) \<Rightarrow>
          (case drawPreview_end todo s1 of (more_painted, s2) \<Rightarrow> Inr (painted @ more_painted, s2)))"

text \<open>What comes from the cache slot among the things painted.\<close>

fun from_cache :: "paint \<Rightarrow> bool" where
  "from_cache (CacheImage bytes) = True"
| "from_cache (CacheText rows) = True"
| "from_cache other = False"

section \<open>Navigation\<close>

text \<open>The \<^verbatim>\<open>for\<close> loop of \<^verbatim>\<open>goUp\<close>, from index \<open>i\<close>, with \<^verbatim>\<open>selectedIndex\<close> in \<open>sel\<close>.\<close>

function goUp_scan :: "FileEntry list \<Rightarrow> string \<Rightarrow> nat \<Rightarrow> nat \<Rightarrow> nat" where
  "goUp_scan files oldDirName i sel =
     (if i < length files then
        (if name (files ! i) = oldDirName then i
         else goUp_scan files oldDirName (i + 1) sel)
      else sel)"
  by pat_completeness auto
termination
  by (relation "measure (\<lambda>(files, oldDirName, i, sel). length files - i)") auto

declare goUp_scan.simps [simp del]

definition goUp :: "'fs filesystem \<Rightarrow> 'fs \<Rightarrow> fm \<Rightarrow> paint list \<times> fm" where
  "goUp env fs s =
     (if has_parent_path env (currentPath s) \<and> currentPath s \<noteq> parent_path env (currentPath s) then
        (case clearDirectRender s of
           (painted, s1) \<Rightarrow>
             (let oldDirName = filename env (currentPath s1);
                  s2 = reloadAll env fs (s1\<lparr>currentPath := parent_path env (currentPath s1)\<rparr>);
                  s3 = s2\<lparr>selectedIndex := goUp_scan (currentFiles s2) oldDirName 0 0\<rparr>
              in (painted,
                  s3\<lparr>scrollOffset := (if selectedIndex s3 > 10 then selectedIndex s3 - 10 else 0)\<rparr>)))
      else ([], s))"

section \<open>Paste\<close>

text \<open>
  One pass of the loop of \<^verbatim>\<open>handlePaste\<close> for the clipboard path \<open>src\<close>, on the disk
  and the \<^verbatim>\<open>successCount\<close> so far. \<^verbatim>\<open>fs::exists(dest)\<close> stands outside the
  \<^verbatim>\<open>try\<close>: its exception is caught nowhere.
\<close>

definition paste_item ::
  "'fs filesystem \<Rightarrow> path \<Rightarrow> bool \<Rightarrow> path \<Rightarrow> 'fs \<times> int \<Rightarrow> fault + 'fs \<times> int" where
  "paste_item env cur moving src acc =
     (case acc of
        (fs, successCount) \<Rightarrow>
          (let dest = append_path env cur (filename env src)
           in case fs_exists env fs dest of
                None \<Rightarrow> Inl Uncaught
              | Some there \<Rightarrow>
                  if there \<and> \<not> moving \<and> src \<noteq> dest then Inr (fs, successCount)
                  else if moving then
                    (case fs_rename env fs src dest of
                       Some fs1 \<Rightarrow> Inr (fs1, successCount + 1)
                     | None \<Rightarrow>
                         (case fs_is_directory env fs src of
                            None \<Rightarrow> Inr (fs, successCount)
                          | Some d \<Rightarrow>
                              (case fs_copy env fs src dest d of
                                 (fs1, False) \<Rightarrow> Inr (fs1, successCount)
                               | (fs1, True) \<Rightarrow>
                                   (case fs_remove_all env fs1 src of
                                      (fs2, False) \<Rightarrow> Inr (fs2, successCount)
                                    | (fs2, True) \<Rightarrow> Inr (fs2, successCount + 1)))))
                  else
                    (case fs_is_directory env fs src of
                       None \<Rightarrow> Inr (fs, successCount)
                     | Some d \<Rightarrow>
                         (case fs_copy env fs src dest d of
                            (fs1, False) \<Rightarrow> Inr (fs1, successCount)
                          | (fs1, True) \<Rightarrow> Inr (fs1, successCount + 1)))))"

fun paste_loop ::
  "'fs filesystem \<Rightarrow> path \<Rightarrow> bool \<Rightarrow> path list \<Rightarrow> 'fs \<times> int \<Rightarrow> fault + 'fs \<times> int" where
  "paste_loop env cur moving [] acc = Inr acc"
| "paste_loop env cur moving (src # rest) acc =
     (case paste_item env cur moving src acc of
        Inl e \<Rightarrow> Inl e
      | Inr acc' \<Rightarrow> paste_loop env cur moving rest acc')"



section \<open>Auxiliary notions for the catalog\<close>

text \<open>
  The paths a loop of \<^verbatim>\<open>loadDirectory\<close> keeps (visible, and of the kind the loop
  wants), the entry it builds for one, and the entries it appends for a list of paths.
\<close>

definition kept :: "'fs filesystem \<Rightarrow> 'fs \<Rightarrow> bool \<Rightarrow> bool \<Rightarrow> path \<Rightarrow> bool" where
  "kept env fs shown want e \<longleftrightarrow>
     (shown \<or> \<not> starts_with_dot (filename env e)) \<and> fs_is_directory env fs e = Some want"

definition entry_of :: "'fs filesystem \<Rightarrow> 'fs \<Rightarrow> path \<Rightarrow> FileEntry" where
  "entry_of env fs e = the (FileEntry_new env fs e)"

definition appended :: "'fs filesystem \<Rightarrow> 'fs \<Rightarrow> bool \<Rightarrow> bool \<Rightarrow> path list \<Rightarrow> FileEntry list" where
  "appended env fs shown want ks = map (entry_of env fs) (filter (kept env fs shown want) ks)"

text \<open>
  An entry at which a loop of \<^verbatim>\<open>loadDirectory\<close> stops: it is visible, and
  \<^verbatim>\<open>fs::is_directory\<close> throws on it.
\<close>

definition blocked :: "'fs filesystem \<Rightarrow> 'fs \<Rightarrow> bool \<Rightarrow> path \<Rightarrow> bool" where
  "blocked env fs shown e \<longleftrightarrow>
     (shown \<or> \<not> starts_with_dot (filename env e)) \<and> fs_is_directory env fs e = None"

section \<open>Auxiliary notions for paste\<close>









section \<open>The decoder on the receiving side\<close>

text \<open>
  The program only encodes: the terminal that receives the escape sequences decodes the
  payload. The decoder below is the usual one for the alphabet \<^verbatim>\<open>base64_chars\<close>
  with \<^verbatim>\<open>=\<close> padding. It is the reference against which \<open>base64_encode\<close> is
  measured, and no part of the program.
\<close>

fun position :: "char \<Rightarrow> string \<Rightarrow> nat option" where
  "position c [] = None"
| "position c (x # xs) = (if x = c then Some 0 else map_option Suc (position c xs))"

definition base64_value :: "char \<Rightarrow> 8 word option" where
  "base64_value c = map_option of_nat (position c base64_chars)"

text \<open>Four 6-bit values give back three bytes.\<close>

definition decode_group :: "8 word \<Rightarrow> 8 word \<Rightarrow> 8 word \<Rightarrow> 8 word \<Rightarrow> 8 word list" where
  "decode_group v0 v1 v2 v3 =
     [push_bit 2 v0 OR drop_bit 4 v1, push_bit 4 v1 OR drop_bit 2 v2, push_bit 6 v2 OR v3]"

fun base64_decode :: "string \<Rightarrow> 8 word list option" where
  "base64_decode [] = Some []"
| "base64_decode (c0 # c1 # c2 # c3 # rest) =
     (case (base64_value c0, base64_value c1) of
        (Some v0, Some v1) \<Rightarrow>
          if c2 = CHR ''='' then
            (if c3 = CHR ''='' \<and> rest = [] then Some (take 1 (decode_group v0 v1 0 0)) else None)
          else
            (case base64_value c2 of
               None \<Rightarrow> None
             | Some v2 \<Rightarrow>
                 if c3 = CHR ''='' then
                   (if rest = [] then Some (take 2 (decode_group v0 v1 v2 0)) else None)
                 else
                   (case base64_value c3 of
                      None \<Rightarrow> None
                    | Some v3 \<Rightarrow>
                        (case base64_decode rest of
                           None \<Rightarrow> None
                         | Some bytes \<Rightarrow> Some (decode_group v0 v1 v2 v3 @ bytes))))
      | other \<Rightarrow> None)"
| "base64_decode other = None"

text \<open>
  The output of \<^verbatim>\<open>base64_encode\<close> described three bytes at a time: a full group for
  every three bytes, then the padded group of the \<^verbatim>\<open>if (i)\<close> block.
\<close>

fun base64_groups :: "8 word list \<Rightarrow> string" where
  "base64_groups (a # b # c # rest) = map base64_char (char_array_4 a b c) @ base64_groups rest"
| "base64_groups rest = base64_tail rest"

section \<open>Example inputs: a small disk and a manager\<close>

text \<open>
  A disk to run the functions on: the nodes of the tree in the order an iteration of
  their directory yields them, each a folder, a plain file, or a node whose status cannot
  be read (a symbolic link that points to itself: \<^verbatim>\<open>stat\<close> fails with ELOOP and
  \<^verbatim>\<open>fs::status\<close> throws). Paths are absolute and use \<^verbatim>\<open>/\<close>.
\<close>

datatype node = Folder | Plain | Unreadable

type_synonym disk = "(path \<times> node) list"

definition toy_filename :: "path \<Rightarrow> string" where
  "toy_filename p = rev (takeWhile (\<lambda>c. c \<noteq> CHR ''/'') (rev p))"

definition toy_parent :: "path \<Rightarrow> path" where
  "toy_parent p =
     (let d = rev (drop 1 (dropWhile (\<lambda>c. c \<noteq> CHR ''/'') (rev p)))
      in if d = [] \<and> take 1 p = ''/'' then ''/'' else d)"

definition toy_extension :: "path \<Rightarrow> string" where
  "toy_extension p =
     (let f = toy_filename p
      in if CHR ''.'' \<in> set (drop 1 f) then CHR ''.'' # rev (takeWhile (\<lambda>c. c \<noteq> CHR ''.'') (rev f))
         else [])"

definition toy_append :: "path \<Rightarrow> path \<Rightarrow> path" where
  "toy_append a b = (if a \<noteq> [] \<and> last a = CHR ''/'' then a @ b else a @ ''/'' @ b)"

definition toy_iterate :: "disk \<Rightarrow> path \<Rightarrow> path list \<times> bool" where
  "toy_iterate d p =
     (if map_of d p = Some Folder
      then (filter (\<lambda>q. toy_parent q = p \<and> q \<noteq> p) (map fst d), False)
      else ([], True))"

definition toy_is_directory :: "disk \<Rightarrow> path \<Rightarrow> bool option" where
  "toy_is_directory d p =
     (case map_of d p of
        None \<Rightarrow> Some False
      | Some Folder \<Rightarrow> Some True
      | Some Plain \<Rightarrow> Some False
      | Some Unreadable \<Rightarrow> None)"

definition toy_exists :: "disk \<Rightarrow> path \<Rightarrow> bool option" where
  "toy_exists d p =
     (case map_of d p of
        None \<Rightarrow> Some False
      | Some Unreadable \<Rightarrow> None
      | Some other \<Rightarrow> Some True)"

definition toy_size :: "disk \<Rightarrow> path \<Rightarrow> 64 word option" where
  "toy_size d p = (case map_of d p of Some Plain \<Rightarrow> Some 0 | other \<Rightarrow> None)"

definition toy_rename :: "disk \<Rightarrow> path \<Rightarrow> path \<Rightarrow> disk option" where
  "toy_rename d a b =
     (case map_of d a of
        None \<Rightarrow> None
      | Some k \<Rightarrow> Some (filter (\<lambda>(q, n). q \<noteq> a \<and> q \<noteq> b) d @ [(b, k)]))"

definition toy_copy :: "disk \<Rightarrow> path \<Rightarrow> path \<Rightarrow> bool \<Rightarrow> disk \<times> bool" where
  "toy_copy d a b recursive =
     (case map_of d a of
        None \<Rightarrow> (d, False)
      | Some k \<Rightarrow> if a = b \<or> map_of d b \<noteq> None then (d, False) else (d @ [(b, k)], True))"

definition toy_remove_all :: "disk \<Rightarrow> path \<Rightarrow> disk \<times> bool" where
  "toy_remove_all d a = (filter (\<lambda>(q, n). q \<noteq> a) d, True)"

definition toy_fs :: "disk filesystem" where
  "toy_fs =
     \<lparr>filename = toy_filename, path_extension = toy_extension, parent_path = toy_parent,
      append_path = toy_append, directory_iterator = toy_iterate,
      fs_is_directory = toy_is_directory, fs_exists = toy_exists, file_size = toy_size,
      fs_rename = toy_rename, fs_copy = toy_copy, fs_remove_all = toy_remove_all,
      read_file = (\<lambda>d p. None)\<rparr>"

text \<open>Some directories on the small disk.\<close>

definition disk_paste :: disk where
  "disk_paste = [(''/src'', Folder), (''/src/a.txt'', Plain), (''/src/b'', Folder),
                 (''/dst'', Folder), (''/dst/a.txt'', Plain), (''/new'', Folder)]"


definition disk_home :: disk where
  "disk_home = [(''/home'', Folder), (''/home/notes.txt'', Plain), (''/home/bob'', Folder),
                (''/home/alice'', Folder), (''/home/bob/x.png'', Plain)]"

definition disk_tidy :: disk where
  "disk_tidy = [(''/d'', Folder), (''/d/zeta'', Folder), (''/d/.git'', Folder),
                (''/d/b.txt'', Plain), (''/d/Alpha'', Folder), (''/d/a.txt'', Plain)]"

definition disk_loop :: disk where
  "disk_loop = [(''/d'', Folder), (''/d/b'', Folder), (''/d/a'', Folder), (''/d/loop'', Unreadable)]"

definition disk_partial :: disk where
  "disk_partial = [(''/d'', Folder), (''/d/sub'', Folder), (''/d/f.txt'', Plain),
                   (''/d/self'', Unreadable)]"

text \<open>A manager showing a directory that holds two images.\<close>

definition two_images :: fm where
  "two_images =
     (member_init 24 \<lparr>maxy = 23, maxx = 32, begy = 0, begx = 48\<rparr>)
       \<lparr>currentPath := ''/d'',
        currentFiles :=
          [\<lparr>path = ''/d/a.png'', name = ''a.png'', is_directory = False, size_bytes = 0,
            extension = ''.png''\<rparr>,
           \<lparr>path = ''/d/b.png'', name = ''b.png'', is_directory = False, size_bytes = 0,
            extension = ''.png''\<rparr>]\<rparr>"

section \<open>Properties\<close>

lemma formatSize_loop_index:
  "0 \<le> i \<Longrightarrow> i \<le> 4 \<Longrightarrow> 0 \<le> snd (formatSize_loop d i) \<and> snd (formatSize_loop d i) \<le> 4"
proof (induction d i rule: formatSize_loop.induct)
  case (1 dSize i)
  show ?case
  proof (cases "dSize > 1024 \<and> i < 4")
    case True
    then have unfold: "formatSize_loop dSize i = formatSize_loop (dSize / 1024) (i + 1)"
      by (subst formatSize_loop.simps) simp
    have "0 \<le> i + 1" "i + 1 \<le> 4" using True "1.prems" by auto
    with "1.IH" [OF True] show ?thesis by (simp only: unfold)
  next
    case False
    then have "formatSize_loop dSize i = (dSize, i)"
      by (subst formatSize_loop.simps) auto
    with "1.prems" show ?thesis by simp
  qed
qed

text \<open>
  Claim C9. Whatever the size, the loop of \<^verbatim>\<open>formatSize\<close> ends with the unit index
  between 0 and 4, the read of the five-element array \<^verbatim>\<open>units\<close> is in bounds, and the
  function returns a string (the loop is a total function: it stops after at most four
  passes).
\<close>

theorem formatSize_index_in_bounds:
  "(case formatSize_loop (to_double sz) 0 of
      (dSize, i) \<Rightarrow>
        0 \<le> i \<and> i \<le> 4 \<and> nat i < length units
        \<and> formatSize to_double printf_1f sz = Inr (printf_1f dSize @ '' '' @ units ! nat i))"
proof -
  obtain dSize i where r: "formatSize_loop (to_double sz) 0 = (dSize, i)"
    by (cases "formatSize_loop (to_double sz) 0")
  have "0 \<le> snd (formatSize_loop (to_double sz) 0) \<and> snd (formatSize_loop (to_double sz) 0) \<le> 4"
    by (rule formatSize_loop_index) simp_all
  then have i: "0 \<le> i" "i \<le> 4" by (simp_all add: r)
  then have "nat i < length units" by (simp add: units_def)
  moreover have "formatSize to_double printf_1f sz = Inr (printf_1f dSize @ '' '' @ units ! nat i)"
    using i by (simp add: formatSize_def r units_at_def units_def)
  ultimately show ?thesis using i by (simp add: r)
qed

text \<open>
  Claim C10. With an empty current catalog, copy and cut return at once: the clipboard
  (paths and mode), the multi-selection and the status message are what they were; the
  whole state is.
\<close>

theorem yank_in_empty_catalog:
  "currentFiles s = [] \<Longrightarrow> handleCopy s = Inr s \<and> handleCut s = Inr s"
  by (simp add: handleCopy_def handleCut_def)

theorem yank_in_empty_catalog_witness:
  "currentFiles ((member_init 24 \<lparr>maxy = 23, maxx = 32, begy = 0, begx = 48\<rparr>)
       \<lparr>clipboard := \<lparr>paths = [''/src/a.txt''], isCut = True\<rparr>, statusMessage := ''Cut items'',
        multiSelection := {''/stale''}\<rparr>) = []
   \<and> handleCopy ((member_init 24 \<lparr>maxy = 23, maxx = 32, begy = 0, begx = 48\<rparr>)
       \<lparr>clipboard := \<lparr>paths = [''/src/a.txt''], isCut = True\<rparr>, statusMessage := ''Cut items'',
        multiSelection := {''/stale''}\<rparr>)
     = Inr ((member_init 24 \<lparr>maxy = 23, maxx = 32, begy = 0, begx = 48\<rparr>)
       \<lparr>clipboard := \<lparr>paths = [''/src/a.txt''], isCut = True\<rparr>, statusMessage := ''Cut items'',
        multiSelection := {''/stale''}\<rparr>)
   \<and> handleCut ((member_init 24 \<lparr>maxy = 23, maxx = 32, begy = 0, begx = 48\<rparr>)
       \<lparr>clipboard := \<lparr>paths = [''/src/a.txt''], isCut = True\<rparr>, statusMessage := ''Cut items'',
        multiSelection := {''/stale''}\<rparr>)
     = Inr ((member_init 24 \<lparr>maxy = 23, maxx = 32, begy = 0, begx = 48\<rparr>)
       \<lparr>clipboard := \<lparr>paths = [''/src/a.txt''], isCut = True\<rparr>, statusMessage := ''Cut items'',
        multiSelection := {''/stale''}\<rparr>)"
proof -
  let ?s = "(member_init 24 \<lparr>maxy = 23, maxx = 32, begy = 0, begx = 48\<rparr>)
       \<lparr>clipboard := \<lparr>paths = [''/src/a.txt''], isCut = True\<rparr>, statusMessage := ''Cut items'',
        multiSelection := {''/stale''}\<rparr>"
  have e: "currentFiles ?s = []" by (simp add: member_init_def)
  from yank_in_empty_catalog [OF e] e show ?thesis by simp
qed

lemma last_piece_arith:
  fixes L C :: nat
  assumes "0 < L" "0 < C"
  shows "L - C * ((L + C - 1) div C - 1) = (if C dvd L then C else L mod C)"
proof -
  obtain m where m: "L = Suc m" using assms(1) by (cases L) auto
  have "(L + C - 1) div C = (m + C) div C" by (simp add: m)
  also have "\<dots> = m div C + 1" using assms(2) div_add_self2 [of C m] by simp
  finally have q: "(L + C - 1) div C - 1 = m div C" by simp
  have "C * (m div C) + m mod C = m" by simp
  then have "L - C * (m div C) = Suc (m mod C)"
    unfolding m by arith
  then have "L - C * ((L + C - 1) div C - 1) = Suc (m mod C)"
    by (simp only: q)
  moreover have "Suc (m mod C) = (if C dvd L then C else L mod C)"
  proof (cases "Suc (m mod C) = C")
    case True
    then have "L mod C = 0" by (simp add: m mod_Suc)
    with True show ?thesis by (simp add: dvd_eq_mod_eq_0)
  next
    case False
    then have "L mod C = Suc (m mod C)" by (simp add: m mod_Suc)
    then show ?thesis by (simp add: dvd_eq_mod_eq_0)
  qed
  ultimately show ?thesis by (rule trans)
qed

lemma kitty_chunks_done: "length b \<le> off \<Longrightarrow> kitty_chunks b off = []"
  by (subst kitty_chunks.simps) simp

lemma kitty_chunks_step:
  "off < length b \<Longrightarrow>
   kitty_chunks b off =
     \<lparr>atStart = (off = 0), isLast = (length b \<le> off + min chunk_size (length b - off)),
      chunk_data = take (min chunk_size (length b - off)) (drop off b)\<rparr>
     # kitty_chunks b (off + min chunk_size (length b - off))"
  by (subst kitty_chunks.simps) (simp add: Let_def)

lemma kitty_chunks_Nil_iff: "kitty_chunks b off = [] \<longleftrightarrow> length b \<le> off"
  by (cases "off < length b") (simp_all add: kitty_chunks_step kitty_chunks_done)

lemma kitty_chunks_concat: "concat (map chunk_data (kitty_chunks b off)) = drop off b"
proof (induction b off rule: kitty_chunks.induct)
  case (1 b off)
  show ?case
  proof (cases "off < length b")
    case True
    let ?n = "min chunk_size (length b - off)"
    have "concat (map chunk_data (kitty_chunks b (off + ?n))) = drop (off + ?n) b"
      using "1.IH" [OF refl True refl refl] .
    then have "concat (map chunk_data (kitty_chunks b off)) = take ?n (drop off b) @ drop ?n (drop off b)"
      by (simp add: kitty_chunks_step [OF True] add.commute)
    then show ?thesis by (simp only: append_take_drop_id)
  next
    case False
    then show ?thesis by (simp add: kitty_chunks_done)
  qed
qed

lemma kitty_chunks_length:
  "length (kitty_chunks b off) = (length b - off + chunk_size - 1) div chunk_size"
proof (induction b off rule: kitty_chunks.induct)
  case (1 b off)
  show ?case
  proof (cases "off < length b")
    case True
    let ?n = "min chunk_size (length b - off)"
    have IH: "length (kitty_chunks b (off + ?n)) = (length b - (off + ?n) + chunk_size - 1) div chunk_size"
      using "1.IH" [OF refl True refl refl] .
    show ?thesis
    proof (cases "length b - off \<le> chunk_size")
      case small: True
      then have n: "?n = length b - off" by simp
      have "(length b - off + chunk_size - 1) div chunk_size = 1"
        using small True by (simp add: chunk_size_def)
      then show ?thesis
        using IH True by (simp add: kitty_chunks_step [OF True] n chunk_size_def)
    next
      case big: False
      then have n: "?n = chunk_size" by simp
      have "(length b - off + chunk_size - 1) div chunk_size
            = Suc ((length b - (off + chunk_size) + chunk_size - 1) div chunk_size)"
        using big by (simp add: chunk_size_def)
      then show ?thesis
        using IH by (simp add: kitty_chunks_step [OF True] n)
    qed
  next
    case False
    then show ?thesis by (simp add: kitty_chunks_done chunk_size_def)
  qed
qed

lemma kitty_chunks_atStart:
  "i < length (kitty_chunks b off) \<Longrightarrow> atStart (kitty_chunks b off ! i) = (off = 0 \<and> i = 0)"
proof (induction b off arbitrary: i rule: kitty_chunks.induct)
  case (1 b off)
  have lt: "off < length b"
    using "1.prems" by (cases "off < length b") (simp_all add: kitty_chunks_done)
  let ?n = "min chunk_size (length b - off)"
  have pos: "0 < ?n" using lt by (simp add: chunk_size_def)
  show ?case
  proof (cases i)
    case 0
    then show ?thesis by (simp add: kitty_chunks_step [OF lt])
  next
    case (Suc j)
    then have "j < length (kitty_chunks b (off + ?n))"
      using "1.prems" by (simp add: kitty_chunks_step [OF lt])
    from "1.IH" [OF refl lt refl refl this] pos Suc show ?thesis
      by (simp add: kitty_chunks_step [OF lt])
  qed
qed

lemma kitty_chunks_isLast:
  "i < length (kitty_chunks b off) \<Longrightarrow>
   isLast (kitty_chunks b off ! i) = (i = length (kitty_chunks b off) - 1)"
proof (induction b off arbitrary: i rule: kitty_chunks.induct)
  case (1 b off)
  have lt: "off < length b"
    using "1.prems" by (cases "off < length b") (simp_all add: kitty_chunks_done)
  let ?n = "min chunk_size (length b - off)"
  show ?case
  proof (cases i)
    case 0
    then show ?thesis
      by (simp add: kitty_chunks_step [OF lt] kitty_chunks_Nil_iff)
  next
    case (Suc j)
    then have j: "j < length (kitty_chunks b (off + ?n))"
      using "1.prems" by (simp add: kitty_chunks_step [OF lt])
    have nth: "kitty_chunks b off ! i = kitty_chunks b (off + ?n) ! j"
      and len: "length (kitty_chunks b off) = Suc (length (kitty_chunks b (off + ?n)))"
      using Suc by (simp_all add: kitty_chunks_step [OF lt])
    have IH: "isLast (kitty_chunks b (off + ?n) ! j) = (j = length (kitty_chunks b (off + ?n)) - 1)"
      using "1.IH" [OF refl lt refl refl j] .
    have "(j = length (kitty_chunks b (off + ?n)) - 1)
          = (i = Suc (length (kitty_chunks b (off + ?n))) - 1)"
      using j Suc by arith
    with IH show ?thesis
      by (simp only: nth len)
  qed
qed

lemma kitty_chunks_data_length:
  "i < length (kitty_chunks b off) \<Longrightarrow>
   length (chunk_data (kitty_chunks b off ! i)) =
     (if i = length (kitty_chunks b off) - 1
      then (length b - off) - chunk_size * (length (kitty_chunks b off) - 1)
      else chunk_size)"
proof (induction b off arbitrary: i rule: kitty_chunks.induct)
  case (1 b off)
  have lt: "off < length b"
    using "1.prems" by (cases "off < length b") (simp_all add: kitty_chunks_done)
  let ?n = "min chunk_size (length b - off)"
  let ?rest = "kitty_chunks b (off + ?n)"
  show ?case
  proof (cases i)
    case 0
    show ?thesis
    proof (cases "?rest = []")
      case True
      then have "length b - off \<le> chunk_size"
        by (simp add: kitty_chunks_Nil_iff min_def split: if_splits)
      with True 0 show ?thesis by (simp add: kitty_chunks_step [OF lt])
    next
      case False
      then have "chunk_size < length b - off"
        by (simp add: kitty_chunks_Nil_iff min_def split: if_splits)
      with False 0 show ?thesis by (simp add: kitty_chunks_step [OF lt])
    qed
  next
    case (Suc j)
    then have j: "j < length ?rest"
      using "1.prems" by (simp add: kitty_chunks_step [OF lt])
    then have "?rest \<noteq> []" by auto
    then have big: "chunk_size < length b - off"
      by (simp add: kitty_chunks_Nil_iff min_def split: if_splits)
    then have n: "?n = chunk_size" by simp
    have IH: "length (chunk_data (?rest ! j)) =
          (if j = length ?rest - 1 then (length b - (off + ?n)) - chunk_size * (length ?rest - 1)
           else chunk_size)"
      using "1.IH" [OF refl lt refl refl j] .
    have arith: "length b - (off + ?n) - chunk_size * (length ?rest - 1)
                   = length b - off - chunk_size * (Suc (length ?rest) - 1)"
      using j by (cases "length ?rest") (simp_all add: n algebra_simps)
    have idx: "(j = length ?rest - 1) = (i = Suc (length ?rest) - 1)"
      using j Suc by arith
    have nth: "kitty_chunks b off ! i = ?rest ! j"
      and len: "length (kitty_chunks b off) = Suc (length ?rest)"
      using Suc by (simp_all add: kitty_chunks_step [OF lt])
    show ?thesis
      by (simp only: nth len IH idx arith)
  qed
qed

lemma last_chunk_arith:
  assumes "0 < (L::nat)"
  shows "L - chunk_size * ((L + chunk_size - 1) div chunk_size - 1)
         = (if chunk_size dvd L then chunk_size else L mod chunk_size)"
  by (rule last_piece_arith [OF assms]) (simp add: chunk_size_def)

lemma frame_nth:
  assumes "i < length (kitty_chunks b 0)"
  shows "frame (kitty_chunks b 0 ! i) =
     [esc] @ ''_G'' @ (if i = 0 then ''a=T,f=100,t=d,q=2,'' else [])
     @ ''m='' @ (if i = length (kitty_chunks b 0) - 1 then ''0'' else ''1'') @ '';''
     @ chunk_data (kitty_chunks b 0 ! i) @ [esc, CHR 0x5C]"
  unfolding frame_def kitty_chunks_atStart [OF assms] kitty_chunks_isLast [OF assms]
  by simp

text \<open>
  \<open>base64_encode\<close> against the decoder. The masks of \<^verbatim>\<open>char_array_4\<close> are bit
  masks, its two sums add disjoint bit fields, and so the four values are the four 6-bit
  fields of the three bytes.
\<close>

lemma c_fc: "(0xfc::8 word) = NOT (mask 2)" by (simp add: mask_eq_exp_minus_1)
lemma c_03: "(0x03::8 word) = mask 2" by (simp add: mask_eq_exp_minus_1)
lemma c_f0: "(0xf0::8 word) = NOT (mask 4)" by (simp add: mask_eq_exp_minus_1)
lemma c_0f: "(0x0f::8 word) = mask 4" by (simp add: mask_eq_exp_minus_1)
lemma c_c0: "(0xc0::8 word) = NOT (mask 6)" by (simp add: mask_eq_exp_minus_1)
lemma c_3f: "(0x3f::8 word) = mask 6" by (simp add: mask_eq_exp_minus_1)

lemma v1_or: "push_bit 4 ((a::8 word) AND mask 2) + drop_bit 4 (b AND NOT (mask 4))
   = push_bit 4 (a AND mask 2) OR drop_bit 4 (b AND NOT (mask 4))"
  by (rule disjunctive_add) (auto simp: bit_simps)

lemma v2_or: "push_bit 2 ((b::8 word) AND mask 4) + drop_bit 6 (c AND NOT (mask 6))
   = push_bit 2 (b AND mask 4) OR drop_bit 6 (c AND NOT (mask 6))"
  by (rule disjunctive_add) (auto simp: bit_simps)

lemma char_array_4_bits:
  "char_array_4 a b c =
     [drop_bit 2 (a AND NOT (mask 2)),
      push_bit 4 (a AND mask 2) OR drop_bit 4 (b AND NOT (mask 4)),
      push_bit 2 (b AND mask 4) OR drop_bit 6 (c AND NOT (mask 6)),
      c AND mask 6]"
  unfolding char_array_4_def c_fc c_03 c_f0 c_0f c_c0 c_3f v1_or v2_or ..

lemma lt8: "n < 8 \<Longrightarrow> n \<in> {0, 1, 2, 3, 4, 5, 6, 7}" for n :: nat
  by auto

lemmas bit_blast = bit_simps numeral_2_eq_2 [symmetric] numeral_3_eq_3 [symmetric]

lemma decode_group_char_array_4:
  "char_array_4 a b c = [v0, v1, v2, v3] \<Longrightarrow> decode_group v0 v1 v2 v3 = [a, b, c]"
  unfolding char_array_4_bits decode_group_def
  apply (elim list.inject [THEN iffD1, elim_format] conjE)
  apply (intro list.inject [THEN iffD2] conjI refl)
    apply (rule bit_word_eqI, auto dest!: lt8 simp: bit_blast)[1]
   apply (rule bit_word_eqI, auto dest!: lt8 simp: bit_blast)[1]
  apply (rule bit_word_eqI, auto dest!: lt8 simp: bit_blast)[1]
  done

lemma six_bits: "take_bit 6 v = v \<Longrightarrow> unat v < 64" for v :: "8 word"
proof -
  assume "take_bit 6 v = v"
  then have "unat v = take_bit 6 (unat v)"
    by (metis unsigned_take_bit_eq)
  also have "\<dots> < 2 ^ 6" by (rule take_bit_nat_less_exp)
  finally show ?thesis by simp
qed

lemma char_array_4_range:
  "v \<in> set (char_array_4 a b c) \<Longrightarrow> unat v < 64"
proof -
  assume "v \<in> set (char_array_4 a b c)"
  then have "take_bit 6 v = v"
    unfolding char_array_4_bits
    by (auto intro!: bit_word_eqI dest!: lt8 simp: bit_blast)
  then show ?thesis by (rule six_bits)
qed

lemma position_nth:
  "distinct xs \<Longrightarrow> n < length xs \<Longrightarrow> position (xs ! n) xs = Some n"
proof (induction xs arbitrary: n)
  case Nil
  then show ?case by simp
next
  case (Cons x xs)
  show ?case
  proof (cases n)
    case 0
    then show ?thesis by simp
  next
    case (Suc m)
    with Cons.prems have "xs ! m \<in> set xs" "x \<notin> set xs" by auto
    then have "x \<noteq> xs ! m" by auto
    with Suc Cons show ?thesis by simp
  qed
qed

lemma base64_chars_distinct: "distinct base64_chars"
  by (simp add: base64_chars_def)

lemma base64_chars_length: "length base64_chars = 64"
  by (simp add: base64_chars_def)

lemma base64_chars_no_pad: "CHR ''='' \<notin> set base64_chars"
  by (simp add: base64_chars_def)

lemma base64_value_char:
  assumes "unat v < 64"
  shows "base64_value (base64_char v) = Some v" and "base64_char v \<noteq> CHR ''=''"
proof -
  have lt: "unat v < length base64_chars" using assms by (simp add: base64_chars_length)
  have "position (base64_chars ! unat v) base64_chars = Some (unat v)"
    by (rule position_nth [OF base64_chars_distinct lt])
  then show "base64_value (base64_char v) = Some v"
    by (simp add: base64_value_def base64_char_def)
  have "base64_chars ! unat v \<in> set base64_chars" using lt by simp
  with base64_chars_no_pad show "base64_char v \<noteq> CHR ''=''"
    by (auto simp: base64_char_def)
qed

lemma base64_groups_short:
  "length buf < 3 \<Longrightarrow> base64_groups buf = base64_tail buf"
  by (cases buf rule: base64_groups.cases) simp_all

lemma base64_loop_groups:
  "length buf < 3 \<Longrightarrow> base64_loop xs buf ret = ret @ base64_groups (buf @ xs)"
proof (induction xs arbitrary: buf ret)
  case Nil
  then show ?case by (simp add: base64_groups_short)
next
  case (Cons x xs)
  show ?case
  proof (cases "length (buf @ [x]) = 3")
    case True
    then obtain a b where buf: "buf = [a, b]"
      by (cases buf; cases "tl buf"; cases "tl (tl buf)") auto
    have "base64_loop (x # xs) buf ret
        = base64_loop xs [] (ret @ map base64_char (char_array_4 a b x))"
      by (simp add: buf Let_def)
    also have "\<dots> = (ret @ map base64_char (char_array_4 a b x)) @ base64_groups ([] @ xs)"
      by (rule Cons.IH) simp
    finally show ?thesis by (simp add: buf)
  next
    case False
    then have short: "length (buf @ [x]) < 3" using Cons.prems by simp
    have "base64_loop (x # xs) buf ret = base64_loop xs (buf @ [x]) ret"
      using False by (simp add: Let_def)
    also have "\<dots> = ret @ base64_groups ((buf @ [x]) @ xs)"
      by (rule Cons.IH [OF short])
    finally show ?thesis by simp
  qed
qed

lemma base64_encode_groups: "base64_encode bytes = base64_groups bytes"
  by (simp add: base64_encode_def base64_loop_groups)

lemma char_array_4_four: "\<exists>v0 v1 v2 v3. char_array_4 a b c = [v0, v1, v2, v3]"
  by (simp add: char_array_4_def)

lemma decode_full_group:
  assumes "base64_decode rest = Some bytes"
  shows "base64_decode (map base64_char (char_array_4 a b c) @ rest) = Some ([a, b, c] @ bytes)"
proof -
  obtain v0 v1 v2 v3 where v: "char_array_4 a b c = [v0, v1, v2, v3]"
    using char_array_4_four by blast
  have r: "unat v0 < 64" "unat v1 < 64" "unat v2 < 64" "unat v3 < 64"
    using char_array_4_range [of _ a b c] by (simp_all add: v)
  have d: "decode_group v0 v1 v2 v3 = [a, b, c]"
    by (rule decode_group_char_array_4 [OF v])
  show ?thesis
    by (simp add: v base64_value_char [OF r(1)] base64_value_char [OF r(2)]
        base64_value_char [OF r(3)] base64_value_char [OF r(4)] assms d)
qed

lemma decode_two_bytes:
  "base64_decode (base64_tail [a, b]) = Some [a, b]"
proof -
  obtain v0 v1 v2 v3 where v: "char_array_4 a b 0 = [v0, v1, v2, v3]"
    using char_array_4_four by blast
  have r: "unat v0 < 64" "unat v1 < 64" "unat v2 < 64"
    using char_array_4_range [of _ a b 0] by (simp_all add: v)
  have d: "decode_group v0 v1 v2 v3 = [a, b, 0]"
    by (rule decode_group_char_array_4 [OF v])
  have "take 2 (decode_group v0 v1 v2 0) = take 2 (decode_group v0 v1 v2 v3)"
    by (simp add: decode_group_def)
  then have t: "take 2 (decode_group v0 v1 v2 0) = [a, b]"
    by (simp add: d)
  have "base64_tail [a, b] = [base64_char v0, base64_char v1, base64_char v2, CHR ''='']"
    by (simp add: base64_tail_def Let_def v numeral_3_eq_3)
  then show ?thesis
    by (simp add: base64_value_char [OF r(1)] base64_value_char [OF r(2)]
        base64_value_char [OF r(3)] t)
qed

lemma decode_one_byte:
  "base64_decode (base64_tail [a]) = Some [a]"
proof -
  obtain v0 v1 v2 v3 where v: "char_array_4 a 0 0 = [v0, v1, v2, v3]"
    using char_array_4_four by blast
  have r: "unat v0 < 64" "unat v1 < 64"
    using char_array_4_range [of _ a 0 0] by (simp_all add: v)
  have d: "decode_group v0 v1 v2 v3 = [a, 0, 0]"
    by (rule decode_group_char_array_4 [OF v])
  have "take 1 (decode_group v0 v1 0 0) = take 1 (decode_group v0 v1 v2 v3)"
    by (simp add: decode_group_def)
  then have t: "take (Suc 0) (decode_group v0 v1 0 0) = [a]"
    by (simp add: d)
  have "base64_tail [a] = [base64_char v0, base64_char v1, CHR ''='', CHR ''='']"
    by (simp add: base64_tail_def Let_def v numeral_3_eq_3 numeral_2_eq_2)
  then show ?thesis
    by (simp add: base64_value_char [OF r(1)] base64_value_char [OF r(2)] t)
qed

lemma decode_no_byte: "base64_decode (base64_tail []) = Some []"
  by (simp add: base64_tail_def)

lemma base64_decode_groups: "base64_decode (base64_groups bytes) = Some bytes"
  by (induction bytes rule: base64_groups.induct)
     (simp_all add: decode_full_group decode_no_byte decode_one_byte decode_two_bytes
        del: base64_decode.simps)

lemma next_group_arith: "(5 + n) div 3 = Suc (Suc (Suc n) div 3)" for n :: nat
  by arith

lemma base64_groups_length: "length (base64_groups bytes) = 4 * ((length bytes + 2) div 3)"
  by (induction bytes rule: base64_groups.induct)
     (simp_all add: base64_tail_def Let_def char_array_4_def next_group_arith)

lemma base64_encode_length: "length (base64_encode bytes) = 4 * ((length bytes + 2) div 3)"
  by (simp add: base64_encode_groups base64_groups_length)

lemma base64_roundtrip: "base64_decode (base64_encode bytes) = Some bytes"
  by (simp add: base64_encode_groups base64_decode_groups)

lemma base64_encode_inj: "base64_encode x = base64_encode y \<Longrightarrow> x = y"
  by (metis base64_roundtrip option.inject)

text \<open>
  Claim C3. For a base64 payload of length \<open>L > 0\<close> the encoder writes
  \<open>ceil (L / 4096)\<close> escape sequences; the payloads of the sequences, put together
  in order, are the base64 string again, so when the string is \<open>base64_encode bytes\<close>
  the receiver decodes the transmitted payloads to \<open>bytes\<close>; only the first sequence
  carries \<^verbatim>\<open>a=T,f=100,t=d,q=2\<close>; the last one is marked \<^verbatim>\<open>m=0\<close> and every
  earlier one \<^verbatim>\<open>m=1\<close>; every sequence but the last carries 4096 characters, and the
  last carries the remainder when 4096 does not divide \<open>L\<close>.
\<close>

theorem sendKittyGraphics_chunking:
  assumes "b64Data \<noteq> []"
  shows "let cs = kitty_chunks b64Data 0; n = length cs in
     n = (length b64Data + chunk_size - 1) div chunk_size
     \<and> 0 < n
     \<and> sendKittyGraphics b64Data pY pX =
         [esc] @ ''['' @ show_int (pY + 7) @ '';'' @ show_int (pX + 2) @ ''H'' @ concat (map frame cs)
     \<and> concat (map chunk_data cs) = b64Data
     \<and> (\<forall>i<n. frame (cs ! i) =
           [esc] @ ''_G'' @ (if i = 0 then ''a=T,f=100,t=d,q=2,'' else [])
           @ ''m='' @ (if i = n - 1 then ''0'' else ''1'') @ '';''
           @ chunk_data (cs ! i) @ [esc, CHR 0x5C])
     \<and> (\<forall>i<n. length (chunk_data (cs ! i)) =
           (if i < n - 1 then chunk_size
            else if chunk_size dvd length b64Data then chunk_size
            else length b64Data mod chunk_size))
     \<and> (\<forall>bytes. b64Data = base64_encode bytes
           \<longrightarrow> base64_decode (concat (map chunk_data cs)) = Some bytes)"
proof -
  let ?cs = "kitty_chunks b64Data 0"
  let ?n = "length ?cs"
  have L: "0 < length b64Data" using assms by simp
  have n: "?n = (length b64Data + chunk_size - 1) div chunk_size"
    using kitty_chunks_length [of b64Data 0] by simp
  have pos: "0 < ?n"
    using assms kitty_chunks_Nil_iff [of b64Data 0] by simp
  have out: "sendKittyGraphics b64Data pY pX =
         [esc] @ ''['' @ show_int (pY + 7) @ '';'' @ show_int (pX + 2) @ ''H'' @ concat (map frame ?cs)"
    by (simp add: sendKittyGraphics_def)
  have cat: "concat (map chunk_data ?cs) = b64Data"
    using kitty_chunks_concat [of b64Data 0] by simp
  have frames: "\<forall>i<?n. frame (?cs ! i) =
           [esc] @ ''_G'' @ (if i = 0 then ''a=T,f=100,t=d,q=2,'' else [])
           @ ''m='' @ (if i = ?n - 1 then ''0'' else ''1'') @ '';''
           @ chunk_data (?cs ! i) @ [esc, CHR 0x5C]"
    using frame_nth by blast
  have lens: "\<forall>i<?n. length (chunk_data (?cs ! i)) =
           (if i < ?n - 1 then chunk_size
            else if chunk_size dvd length b64Data then chunk_size
            else length b64Data mod chunk_size)"
  proof (intro allI impI)
    fix i assume i: "i < ?n"
    have "length (chunk_data (?cs ! i)) =
            (if i = ?n - 1 then length b64Data - chunk_size * (?n - 1) else chunk_size)"
      using kitty_chunks_data_length [OF i] by simp
    moreover have "length b64Data - chunk_size * (?n - 1)
        = (if chunk_size dvd length b64Data then chunk_size else length b64Data mod chunk_size)"
      unfolding n by (rule last_chunk_arith [OF L])
    moreover have "(i = ?n - 1) = (\<not> i < ?n - 1)" using i by arith
    ultimately show "length (chunk_data (?cs ! i)) =
           (if i < ?n - 1 then chunk_size
            else if chunk_size dvd length b64Data then chunk_size
            else length b64Data mod chunk_size)"
      by simp
  qed
  have dec: "\<forall>bytes. b64Data = base64_encode bytes
           \<longrightarrow> base64_decode (concat (map chunk_data ?cs)) = Some bytes"
    unfolding cat by (simp add: base64_roundtrip)
  from n pos out cat frames lens dec show ?thesis
    unfolding Let_def by (intro conjI)
qed

theorem sendKittyGraphics_chunking_witness:
  "base64_encode (replicate 3073 0) \<noteq> []
   \<and> length (base64_encode (replicate 3073 0)) = 4100
   \<and> length (kitty_chunks (base64_encode (replicate 3073 0)) 0) = 2
   \<and> length (chunk_data (kitty_chunks (base64_encode (replicate 3073 0)) 0 ! 0)) = 4096
   \<and> length (chunk_data (kitty_chunks (base64_encode (replicate 3073 0)) 0 ! 1)) = 4
   \<and> concat (map chunk_data (kitty_chunks (base64_encode (replicate 3073 0)) 0))
       = base64_encode (replicate 3073 0)
   \<and> base64_decode (concat (map chunk_data (kitty_chunks (base64_encode (replicate 3073 0)) 0)))
       = Some (replicate 3073 0)"
proof -
  let ?b = "base64_encode (replicate 3073 0)"
  have len: "length ?b = 4100" by (simp add: base64_encode_length)
  have ne: "?b \<noteq> []" using len by auto
  have n: "(length ?b + chunk_size - 1) div chunk_size = 2"
    by (simp add: len chunk_size_def)
  have rest: "\<not> chunk_size dvd length ?b" "length ?b mod chunk_size = 4"
    by (simp_all add: len chunk_size_def)
  note inst = sendKittyGraphics_chunking [OF ne, of 0 0, unfolded Let_def]
  from inst have two: "length (kitty_chunks ?b 0) = 2"
    using n by simp
  from inst have cat: "concat (map chunk_data (kitty_chunks ?b 0)) = ?b"
    by blast
  from inst have lens: "\<forall>i<length (kitty_chunks ?b 0).
      length (chunk_data (kitty_chunks ?b 0 ! i)) =
           (if i < length (kitty_chunks ?b 0) - 1 then chunk_size
            else if chunk_size dvd length ?b then chunk_size
            else length ?b mod chunk_size)"
    by blast
  from inst have dec: "\<forall>bytes. ?b = base64_encode bytes
           \<longrightarrow> base64_decode (concat (map chunk_data (kitty_chunks ?b 0))) = Some bytes"
    by blast
  have l0: "length (chunk_data (kitty_chunks ?b 0 ! 0)) = 4096"
    using lens [rule_format, of 0] two by (simp add: chunk_size_def)
  have l1: "length (chunk_data (kitty_chunks ?b 0 ! 1)) = 4"
    using lens [rule_format, of 1] two rest by simp
  have again: "base64_decode (concat (map chunk_data (kitty_chunks ?b 0))) = Some (replicate 3073 0)"
    using dec [rule_format, of "replicate 3073 0"] by simp
  from ne len two l0 l1 cat again show ?thesis by (intro conjI)
qed

lemma inv_dispatch: "pipeline_inv s \<Longrightarrow> pipeline_inv (startAsyncPreview p ty h w s)"
  by (auto simp: pipeline_inv_def startAsyncPreview_def Let_def nth_append)

lemma last_is_nth: "Suc k = length xs \<Longrightarrow> last xs = xs ! k"
proof -
  assume a: "Suc k = length xs"
  then have "xs \<noteq> []" by auto
  moreover have "length xs - 1 = k" using a by arith
  ultimately show ?thesis by (simp add: last_conv_nth)
qed

lemma last_update_other:
  "k < length xs \<Longrightarrow> Suc k \<noteq> length xs \<Longrightarrow> last (xs[k := y]) = last xs"
  by (cases "xs = []") (simp_all add: last_conv_nth)

lemma last_update_self:
  "Suc k = length xs \<Longrightarrow> last (xs[k := y]) = y"
  using last_is_nth [of k "xs[k := y]"] by simp

lemma inv_commit:
  assumes "pipeline_inv s" "k < length (threads s)"
  shows "pipeline_inv (worker_commit k b64 lines s)"
proof (cases "Suc k = length (threads s)")
  case True
  then have "reqId (threads s ! k) = requestID s"
    using assms by (auto simp: pipeline_inv_def)
  moreover have "last (threads s) = threads s ! k"
    using True by (rule last_is_nth)
  ultimately show ?thesis
    using assms True
    by (auto simp: pipeline_inv_def worker_commit_def Let_def nth_list_update last_update_self)
next
  case False
  then have "reqId (threads s ! k) \<noteq> requestID s"
    using assms by (auto simp: pipeline_inv_def)
  then show ?thesis
    using assms False
    by (auto simp: pipeline_inv_def worker_commit_def Let_def nth_list_update last_update_other)
qed

lemma inv_signal:
  assumes "pipeline_inv s" "k < length (threads s)" "job_stage (threads s ! k) = Committed"
  shows "pipeline_inv (worker_signal k s)"
proof (cases "Suc k = length (threads s)")
  case True
  then have "last (threads s) = threads s ! k"
    by (rule last_is_nth)
  then show ?thesis
    using assms True
    by (auto simp: pipeline_inv_def worker_signal_def Let_def nth_list_update last_update_self)
next
  case False
  then show ?thesis
    using assms
    by (auto simp: pipeline_inv_def worker_signal_def Let_def nth_list_update last_update_other)
qed

lemma inv_exec: "pipeline_inv s \<Longrightarrow> exec e s = Some s' \<Longrightarrow> pipeline_inv s'"
  by (cases e) (auto simp: inv_dispatch inv_commit inv_signal split: if_splits)

lemma inv_run: "pipeline_inv s \<Longrightarrow> run sched s = Some s' \<Longrightarrow> pipeline_inv s'"
proof (induction sched arbitrary: s)
  case Nil
  then show ?case by simp
next
  case (Cons e es)
  then obtain s1 where "exec e s = Some s1" "run es s1 = Some s'"
    by (auto split: option.splits)
  with Cons show ?case using inv_exec by blast
qed

lemma exec_threads_grow: "exec e s = Some s' \<Longrightarrow> length (threads s) \<le> length (threads s')"
  by (cases e) (auto simp: startAsyncPreview_def worker_commit_def worker_signal_def Let_def split: if_splits)

lemma run_threads_grow: "run sched s = Some s' \<Longrightarrow> length (threads s) \<le> length (threads s')"
proof (induction sched arbitrary: s)
  case Nil
  then show ?case by simp
next
  case (Cons e es)
  then obtain s1 where "exec e s = Some s1" "run es s1 = Some s'"
    by (auto split: option.splits)
  with Cons.IH [of s1] exec_threads_grow [of e s s1] show ?case by simp
qed

lemma run_requestedPath:
  "run sched s = Some s' \<Longrightarrow>
   requestedPath s' = (case last_dispatched sched of None \<Rightarrow> requestedPath s | Some p \<Rightarrow> p)
   \<and> (last_dispatched sched \<noteq> None \<longrightarrow> threads s' \<noteq> [])"
proof (induction sched arbitrary: s)
  case Nil
  then show ?case by simp
next
  case (Cons e es)
  then obtain s1 where s1: "exec e s = Some s1" "run es s1 = Some s'"
    by (auto split: option.splits)
  note IH = Cons.IH [OF s1(2)]
  show ?case
  proof (cases e)
    case (Dispatch p ty h w)
    then have "requestedPath s1 = p" "threads s1 \<noteq> []"
      using s1(1) by (auto simp: startAsyncPreview_def Let_def)
    moreover have "length (threads s1) \<le> length (threads s')"
      using run_threads_grow [OF s1(2)] .
    ultimately show ?thesis using IH Dispatch
      by (auto split: option.splits)
  next
    case (Commit k b64 lines)
    then have "requestedPath s1 = requestedPath s"
      using s1(1) by (auto simp: worker_commit_def Let_def split: if_splits)
    then show ?thesis using IH Commit by (auto split: option.splits)
  next
    case (Signal k)
    then have "requestedPath s1 = requestedPath s"
      using s1(1) by (auto simp: worker_signal_def Let_def split: if_splits)
    then show ?thesis using IH Signal by (auto split: option.splits)
  qed
qed

lemma fresh_inv: "requestID s0 = 0 \<Longrightarrow> threads s0 = [] \<Longrightarrow> pipeline_inv s0"
  by (simp add: pipeline_inv_def)

lemma stale_commit_writes_nothing:
  "reqId (threads s ! k) \<noteq> requestID s \<Longrightarrow> cache_slot (worker_commit k b64 lines s) = cache_slot s"
  by (simp add: worker_commit_def cache_slot_def Let_def)

text \<open>
  Claim C1. Start from a fresh manager (counter 0, no worker) and run any interleaving of
  dispatches and worker steps. Once every worker has committed, the path in the cache
  slot is the path of the last request dispatched. In every reachable state worker \<open>k\<close>
  holds the generation id \<open>k + 1\<close> and the counter equals the number of workers, so
  the commit of any worker but the newest leaves the slot as it is, whenever it runs: a
  commit changes the slot only if its id equals the counter.
\<close>

theorem last_request_wins:
  assumes "requestID s0 = 0" and "threads s0 = []" and "run sched s0 = Some s"
  shows "(last_dispatched sched = Some p \<and> (\<forall>w\<in>set (threads s). job_stage w \<noteq> Computing)
            \<longrightarrow> cachedPath s = p)
         \<and> requestID s = int (length (threads s))
         \<and> (\<forall>k<length (threads s).
               reqId (threads s ! k) = int k + 1
               \<and> (Suc k < length (threads s)
                    \<longrightarrow> cache_slot (worker_commit k b64 lines s) = cache_slot s)
               \<and> (cache_slot (worker_commit k b64 lines s) \<noteq> cache_slot s
                    \<longrightarrow> reqId (threads s ! k) = requestID s))"
proof -
  have inv: "pipeline_inv s"
    using inv_run [OF fresh_inv [OF assms(1,2)] assms(3)] .
  have req: "requestedPath s = (case last_dispatched sched of None \<Rightarrow> requestedPath s0 | Some p \<Rightarrow> p)"
    and ne: "last_dispatched sched \<noteq> None \<longrightarrow> threads s \<noteq> []"
    using run_requestedPath [OF assms(3)] by simp_all
  have first: "last_dispatched sched = Some p \<and> (\<forall>w\<in>set (threads s). job_stage w \<noteq> Computing)
            \<longrightarrow> cachedPath s = p"
  proof (intro impI, elim conjE)
    assume p: "last_dispatched sched = Some p"
      and fin: "\<forall>w\<in>set (threads s). job_stage w \<noteq> Computing"
    from p ne have t: "threads s \<noteq> []" by simp
    then have "job_stage (last (threads s)) \<noteq> Computing" using fin by simp
    with inv t have "cachedPath s = job_path (last (threads s))"
      and "requestedPath s = job_path (last (threads s))"
      by (simp_all add: pipeline_inv_def)
    with req p show "cachedPath s = p" by simp
  qed
  have ids: "\<forall>k<length (threads s). reqId (threads s ! k) = int k + 1"
    and cnt: "requestID s = int (length (threads s))"
    using inv by (simp_all add: pipeline_inv_def)
  have stale: "\<forall>k<length (threads s). Suc k < length (threads s)
                    \<longrightarrow> cache_slot (worker_commit k b64 lines s) = cache_slot s"
    using ids cnt by (auto intro!: stale_commit_writes_nothing)
  have only: "\<forall>k<length (threads s). cache_slot (worker_commit k b64 lines s) \<noteq> cache_slot s
                    \<longrightarrow> reqId (threads s ! k) = requestID s"
    using stale_commit_writes_nothing by blast
  from first cnt ids stale only show ?thesis by blast
qed

theorem last_request_wins_witness:
  "requestID (member_init 24 \<lparr>maxy = 23, maxx = 32, begy = 0, begx = 48\<rparr>) = 0
   \<and> threads (member_init 24 \<lparr>maxy = 23, maxx = 32, begy = 0, begx = 48\<rparr>) = []
   \<and> last_dispatched
        [Dispatch ''/d/a.png'' IMAGE 13 28, Dispatch ''/d/b.txt'' TEXT 13 28,
         Dispatch ''/d/c.png'' IMAGE 13 28,
         Commit 2 ''Yw=='' [], Commit 1 [] [''b''], Signal 2, Commit 0 ''YQ=='' []] = Some ''/d/c.png''
   \<and> (\<exists>s. run
        [Dispatch ''/d/a.png'' IMAGE 13 28, Dispatch ''/d/b.txt'' TEXT 13 28,
         Dispatch ''/d/c.png'' IMAGE 13 28,
         Commit 2 ''Yw=='' [], Commit 1 [] [''b''], Signal 2, Commit 0 ''YQ=='' []]
        (member_init 24 \<lparr>maxy = 23, maxx = 32, begy = 0, begx = 48\<rparr>) = Some s
      \<and> (\<forall>w\<in>set (threads s). job_stage w \<noteq> Computing)
      \<and> cachedPath s = ''/d/c.png'' \<and> cachedBase64 s = ''Yw=='')"
proof -
  let ?s0 = "member_init 24 \<lparr>maxy = 23, maxx = 32, begy = 0, begx = 48\<rparr>"
  let ?sched = "[Dispatch ''/d/a.png'' IMAGE 13 28, Dispatch ''/d/b.txt'' TEXT 13 28,
         Dispatch ''/d/c.png'' IMAGE 13 28,
         Commit 2 ''Yw=='' [], Commit 1 [] [''b''], Signal 2, Commit 0 ''YQ=='' []]"
  have fresh: "requestID ?s0 = 0" "threads ?s0 = []"
    by (simp_all add: member_init_def)
  have last: "last_dispatched ?sched = Some ''/d/c.png''"
    by simp
  have "\<exists>s. run ?sched ?s0 = Some s \<and> (\<forall>w\<in>set (threads s). job_stage w \<noteq> Computing)
          \<and> cachedBase64 s = ''Yw==''"
    by (simp add: member_init_def startAsyncPreview_def worker_commit_def worker_signal_def Let_def)
  then obtain s where s: "run ?sched ?s0 = Some s"
    and fin: "\<forall>w\<in>set (threads s). job_stage w \<noteq> Computing"
    and b64: "cachedBase64 s = ''Yw==''"
    by blast
  have "cachedPath s = ''/d/c.png''"
    using last_request_wins [OF fresh s, of "''/d/c.png''"] last fin by blast
  with s fin b64 have "\<exists>s. run ?sched ?s0 = Some s
      \<and> (\<forall>w\<in>set (threads s). job_stage w \<noteq> Computing)
      \<and> cachedPath s = ''/d/c.png'' \<and> cachedBase64 s = ''Yw==''"
    by blast
  with fresh last show ?thesis by blast
qed

lemmas toy_simps =
  toy_fs_def toy_iterate_def toy_parent_def toy_filename_def toy_is_directory_def
  toy_exists_def toy_size_def toy_extension_def toy_append_def toy_rename_def toy_copy_def
  toy_remove_all_def

lemma entry_of_kept:
  assumes "kept env fs shown want e"
  shows "FileEntry_new env fs e = Some (entry_of env fs e)"
    and "is_directory (entry_of env fs e) = want"
    and "name (entry_of env fs e) = filename env e"
    and "path (entry_of env fs e) = e"
  using assms by (simp_all add: kept_def entry_of_def FileEntry_new_def)

lemma load_pass_shape:
  "\<exists>n\<le>length es.
     fst (load_pass env fs shown want es target)
       = target @ map (entry_of env fs) (filter (kept env fs shown want) (take n es))
     \<and> (\<not> snd (load_pass env fs shown want es target) \<longrightarrow> n = length es)"
proof (induction es arbitrary: target)
  case Nil
  then show ?case by simp
next
  case (Cons e es)
  show ?case
  proof (cases "\<not> shown \<and> starts_with_dot (filename env e)")
    case True
    then have nk: "\<not> kept env fs shown want e" by (auto simp: kept_def)
    from Cons.IH [of target] obtain n where n: "n \<le> length es"
      "fst (load_pass env fs shown want es target)
         = target @ map (entry_of env fs) (filter (kept env fs shown want) (take n es))"
      "\<not> snd (load_pass env fs shown want es target) \<longrightarrow> n = length es"
      by blast
    show ?thesis
      using True nk n by (intro exI [of _ "Suc n"]) simp
  next
    case visible: False
    show ?thesis
    proof (cases "fs_is_directory env fs e")
      case None
      with visible show ?thesis by (intro exI [of _ 0]) auto
    next
      case (Some d)
      show ?thesis
      proof (cases "d = want")
        case True
        with Some visible have k: "kept env fs shown want e" by (auto simp: kept_def)
        from Cons.IH [of "target @ [entry_of env fs e]"] obtain n where n: "n \<le> length es"
          "fst (load_pass env fs shown want es (target @ [entry_of env fs e]))
             = (target @ [entry_of env fs e])
               @ map (entry_of env fs) (filter (kept env fs shown want) (take n es))"
          "\<not> snd (load_pass env fs shown want es (target @ [entry_of env fs e])) \<longrightarrow> n = length es"
          by blast
        show ?thesis
          using visible Some True k n entry_of_kept(1) [OF k]
          by (intro exI [of _ "Suc n"]) auto
      next
        case False
        with Some have nk: "\<not> kept env fs shown want e" by (auto simp: kept_def)
        from Cons.IH [of target] obtain n where n: "n \<le> length es"
          "fst (load_pass env fs shown want es target)
             = target @ map (entry_of env fs) (filter (kept env fs shown want) (take n es))"
          "\<not> snd (load_pass env fs shown want es target) \<longrightarrow> n = length es"
          by blast
        show ?thesis
          using visible Some False nk n by (intro exI [of _ "Suc n"]) auto
      qed
    qed
  qed
qed

lemma distinct_map_sort_key: "distinct (map f (sort_key f xs)) = distinct (map f xs)"
  by (induction xs) (simp_all add: distinct_insort_key)

lemma kept_entries:
  "\<forall>x\<in>set (map (entry_of env fs) (filter (kept env fs shown want) ks)). is_directory x = want"
  by (auto simp: entry_of_kept)

lemma kept_names:
  "map name (map (entry_of env fs) (filter (kept env fs shown want) ks))
   = map (filename env) (filter (kept env fs shown want) ks)"
  by (induction ks) (auto simp: entry_of_kept)

lemma kept_paths:
  "map path (map (entry_of env fs) (filter (kept env fs shown want) ks))
   = filter (kept env fs shown want) ks"
  by (induction ks) (auto simp: entry_of_kept)

lemma kept_distinct:
  assumes "distinct (map (filename env) es)"
  shows "distinct (map name (map (entry_of env fs) (filter (kept env fs shown want) (take n es))))"
proof -
  have "distinct (map (filename env) (take n es))"
    using assms by (simp add: take_map [symmetric] del: take_map)
  then have "distinct (map (filename env) (filter (kept env fs shown want) (take n es)))"
    by (rule distinct_map_filter)
  then show ?thesis by (simp only: kept_names)
qed

lemma load_try_shape:
  assumes it: "directory_iterator env fs p = (es, failed)"
  shows "\<exists>n1 n2. n1 \<le> length es \<and> n2 \<le> length es \<and>
     (let dirs = map (entry_of env fs) (filter (kept env fs shown True) (take n1 es));
          files = map (entry_of env fs) (filter (kept env fs shown False) (take n2 es))
      in if load_caught env fs shown p
         then load_target env fs shown p = dirs
              \<or> load_target env fs shown p = sort_key name dirs @ files
         else n1 = length es \<and> n2 = length es
              \<and> load_target env fs shown p = sort_key name dirs @ sort_key name files)"
proof -
  obtain n1 where n1: "n1 \<le> length es"
    "fst (load_pass env fs shown True es [])
       = map (entry_of env fs) (filter (kept env fs shown True) (take n1 es))"
    "\<not> snd (load_pass env fs shown True es []) \<longrightarrow> n1 = length es"
    using load_pass_shape [of es env fs shown True "[]"] by auto
  let ?dirs = "map (entry_of env fs) (filter (kept env fs shown True) (take n1 es))"
  obtain b1 where p1: "load_pass env fs shown True es [] = (?dirs, b1)"
    using n1(2) by (cases "load_pass env fs shown True es []") simp
  show ?thesis
  proof (cases "b1 \<or> failed")
    case True
    then have "load_try env fs shown p = (?dirs, True)"
      by (cases b1) (auto simp: load_try_def it p1)
    then show ?thesis
      using n1(1) by (intro exI [of _ n1] exI [of _ 0]) (simp add: load_target_def load_caught_def)
  next
    case False
    then have full1: "n1 = length es" using n1(3) p1 by simp
    obtain n2 where n2: "n2 \<le> length es"
      "fst (load_pass env fs shown False es (sort_key name ?dirs))
         = sort_key name ?dirs @ map (entry_of env fs) (filter (kept env fs shown False) (take n2 es))"
      "\<not> snd (load_pass env fs shown False es (sort_key name ?dirs)) \<longrightarrow> n2 = length es"
      using load_pass_shape [of es env fs shown False "sort_key name ?dirs"] by auto
    let ?files = "map (entry_of env fs) (filter (kept env fs shown False) (take n2 es))"
    obtain b2 where p2: "load_pass env fs shown False es (sort_key name ?dirs)
        = (sort_key name ?dirs @ ?files, b2)"
      using n2(2) by (cases "load_pass env fs shown False es (sort_key name ?dirs)") simp
    show ?thesis
    proof (cases b2)
      case True
      then have "load_try env fs shown p = (sort_key name ?dirs @ ?files, True)"
        using False by (simp add: load_try_def it p1 p2 Let_def)
      then show ?thesis
        using n1(1) n2(1)
        by (intro exI [of _ n1] exI [of _ n2]) (simp add: load_target_def load_caught_def)
    next
      case b2: False
      then have full2: "n2 = length es" using n2(3) p2 by simp
      have "load_try env fs shown p = (sort_key name ?dirs @ sort_key name ?files, False)"
        using False b2 by (simp add: load_try_def it p1 p2 Let_def)
      then show ?thesis
        using full1 full2
        by (intro exI [of _ n1] exI [of _ n2]) (simp add: load_target_def load_caught_def)
    qed
  qed
qed

text \<open>
  The order of the list. \<^verbatim>\<open>loadDirectory\<close> always leaves a run of directory entries
  followed by a run of entries that are not directories. When no exception ended the
  load, each run is in lexicographic order of the display names (byte-wise,
  case-sensitive), the runs hold exactly the visible directories and the visible other
  entries of the listing, and the order is strict when the listing has no two entries of
  one file name.
\<close>

lemma loadDirectory_order_unless_caught:
  "\<exists>ds fls.
     fst (loadDirectory env fs p s) = ds @ fls
     \<and> (\<forall>d\<in>set ds. is_directory d) \<and> (\<forall>f\<in>set fls. \<not> is_directory f)
     \<and> (\<not> load_caught env fs (showHidden s) p \<longrightarrow>
          sorted (map name ds) \<and> sorted (map name fls)
          \<and> path ` set ds = {e \<in> set (fst (directory_iterator env fs p)).
                (showHidden s \<or> \<not> starts_with_dot (filename env e))
                \<and> fs_is_directory env fs e = Some True}
          \<and> path ` set fls = {e \<in> set (fst (directory_iterator env fs p)).
                (showHidden s \<or> \<not> starts_with_dot (filename env e))
                \<and> fs_is_directory env fs e = Some False}
          \<and> (distinct (map (filename env) (fst (directory_iterator env fs p))) \<longrightarrow>
               sorted_wrt (<) (map name ds) \<and> sorted_wrt (<) (map name fls)))"
proof -
  let ?shown = "showHidden s"
  obtain es failed where it: "directory_iterator env fs p = (es, failed)"
    by (cases "directory_iterator env fs p")
  have T: "fst (loadDirectory env fs p s) = load_target env fs ?shown p"
    by (simp add: loadDirectory_def)
  from load_try_shape [OF it, of ?shown, unfolded Let_def] obtain n1 n2 where
    le: "n1 \<le> length es" "n2 \<le> length es" and
    shape: "if load_caught env fs ?shown p
         then load_target env fs ?shown p
                = map (entry_of env fs) (filter (kept env fs ?shown True) (take n1 es))
              \<or> load_target env fs ?shown p
                = sort_key name (map (entry_of env fs) (filter (kept env fs ?shown True) (take n1 es)))
                  @ map (entry_of env fs) (filter (kept env fs ?shown False) (take n2 es))
         else n1 = length es \<and> n2 = length es
              \<and> load_target env fs ?shown p
                = sort_key name (map (entry_of env fs) (filter (kept env fs ?shown True) (take n1 es)))
                  @ sort_key name (map (entry_of env fs) (filter (kept env fs ?shown False) (take n2 es)))"
    by (elim exE conjE)
  let ?D = "map (entry_of env fs) (filter (kept env fs ?shown True) (take n1 es))"
  let ?F = "map (entry_of env fs) (filter (kept env fs ?shown False) (take n2 es))"
  have dirsD: "\<forall>d\<in>set ?D. is_directory d"
    using kept_entries [of env fs ?shown True] by simp
  have filesF: "\<forall>f\<in>set ?F. \<not> is_directory f"
    using kept_entries [of env fs ?shown False] by simp
  show ?thesis
  proof (cases "load_caught env fs ?shown p")
    case True
    with shape consider
      (a) "load_target env fs ?shown p = ?D"
      | (b) "load_target env fs ?shown p = sort_key name ?D @ ?F"
      by auto
    then show ?thesis
    proof cases
      case a
      have c1: "fst (loadDirectory env fs p s) = ?D @ []" using a T by simp
      have c3: "\<forall>f\<in>set ([]::FileEntry list). \<not> is_directory f" by simp
      show ?thesis
        apply (rule exI [of _ ?D])
        apply (rule exI [of _ "[]"])
        apply (intro conjI c1 dirsD c3 impI)
        apply (simp_all only: True not_True_eq_False)
        done
    next
      case b
      have c1: "fst (loadDirectory env fs p s) = sort_key name ?D @ ?F" using b T by simp
      have c2: "\<forall>d\<in>set (sort_key name ?D). is_directory d" using dirsD by simp
      show ?thesis
        apply (rule exI [of _ "sort_key name ?D"])
        apply (rule exI [of _ ?F])
        apply (intro conjI c1 c2 filesF impI)
        apply (simp_all only: True not_True_eq_False)
        done
    qed
  next
    case False
    with shape have full: "n1 = length es" "n2 = length es"
      and eq: "load_target env fs ?shown p = sort_key name ?D @ sort_key name ?F"
      by simp_all
    have d1: "\<forall>d\<in>set (sort_key name ?D). is_directory d" using dirsD by simp
    have f1: "\<forall>f\<in>set (sort_key name ?F). \<not> is_directory f" using filesF by simp
    have s1: "sorted (map name (sort_key name ?D))" "sorted (map name (sort_key name ?F))"
      by simp_all
    have "path ` set (sort_key name ?D) = set (map path ?D)" by (simp only: set_sort set_map)
    also have "\<dots> = set (filter (kept env fs ?shown True) (take n1 es))"
      by (simp only: kept_paths)
    also have "\<dots> = {e \<in> set es. kept env fs ?shown True e}"
      using full by simp
    finally have pD: "path ` set (sort_key name ?D) = {e \<in> set es. kept env fs ?shown True e}" .
    have "path ` set (sort_key name ?F) = set (map path ?F)" by (simp only: set_sort set_map)
    also have "\<dots> = set (filter (kept env fs ?shown False) (take n2 es))"
      by (simp only: kept_paths)
    also have "\<dots> = {e \<in> set es. kept env fs ?shown False e}"
      using full by simp
    finally have pF: "path ` set (sort_key name ?F) = {e \<in> set es. kept env fs ?shown False e}" .
    have strict: "distinct (map (filename env) es) \<longrightarrow>
        sorted_wrt (<) (map name (sort_key name ?D)) \<and> sorted_wrt (<) (map name (sort_key name ?F))"
    proof
      assume dis: "distinct (map (filename env) es)"
      have "distinct (map name ?D)" "distinct (map name ?F)"
        using kept_distinct [OF dis] by blast+
      then have "distinct (map name (sort_key name ?D))" "distinct (map name (sort_key name ?F))"
        by (simp_all only: distinct_map_sort_key)
      with s1 show "sorted_wrt (<) (map name (sort_key name ?D))
          \<and> sorted_wrt (<) (map name (sort_key name ?F))"
        by (simp add: strict_sorted_iff)
    qed
    have es: "fst (directory_iterator env fs p) = es" by (simp add: it)
    have c1: "fst (loadDirectory env fs p s) = sort_key name ?D @ sort_key name ?F"
      using eq T by simp
    have pD': "path ` set (sort_key name ?D) = {e \<in> set (fst (directory_iterator env fs p)).
                (showHidden s \<or> \<not> starts_with_dot (filename env e))
                \<and> fs_is_directory env fs e = Some True}"
      unfolding es using pD by (simp only: kept_def)
    have pF': "path ` set (sort_key name ?F) = {e \<in> set (fst (directory_iterator env fs p)).
                (showHidden s \<or> \<not> starts_with_dot (filename env e))
                \<and> fs_is_directory env fs e = Some False}"
      unfolding es using pF by (simp only: kept_def)
    have strict': "distinct (map (filename env) (fst (directory_iterator env fs p))) \<longrightarrow>
               sorted_wrt (<) (map name (sort_key name ?D))
               \<and> sorted_wrt (<) (map name (sort_key name ?F))"
      unfolding es by (rule strict)
    have c4: "\<not> load_caught env fs (showHidden s) p \<longrightarrow>
          sorted (map name (sort_key name ?D)) \<and> sorted (map name (sort_key name ?F))
          \<and> path ` set (sort_key name ?D) = {e \<in> set (fst (directory_iterator env fs p)).
                (showHidden s \<or> \<not> starts_with_dot (filename env e))
                \<and> fs_is_directory env fs e = Some True}
          \<and> path ` set (sort_key name ?F) = {e \<in> set (fst (directory_iterator env fs p)).
                (showHidden s \<or> \<not> starts_with_dot (filename env e))
                \<and> fs_is_directory env fs e = Some False}
          \<and> (distinct (map (filename env) (fst (directory_iterator env fs p))) \<longrightarrow>
               sorted_wrt (<) (map name (sort_key name ?D))
               \<and> sorted_wrt (<) (map name (sort_key name ?F)))"
      by (intro impI conjI s1 pD' pF' strict')
    show ?thesis
      apply (rule exI [of _ "sort_key name ?D"])
      apply (rule exI [of _ "sort_key name ?F"])
      apply (intro conjI c1 d1 f1 c4)
      done
  qed
qed

lemma loadDirectory_order_example:
  "\<not> load_caught toy_fs disk_tidy False ''/d''
   \<and> distinct (map (filename toy_fs) (fst (directory_iterator toy_fs disk_tidy ''/d'')))
   \<and> (\<exists>ds fls.
        fst (loadDirectory toy_fs disk_tidy ''/d'' (member_init 24 \<lparr>maxy = 23, maxx = 32, begy = 0, begx = 48\<rparr>))
          = ds @ fls
        \<and> (\<forall>d\<in>set ds. is_directory d) \<and> (\<forall>f\<in>set fls. \<not> is_directory f)
        \<and> sorted_wrt (<) (map name ds) \<and> sorted_wrt (<) (map name fls))
   \<and> map name (fst (loadDirectory toy_fs disk_tidy ''/d''
          (member_init 24 \<lparr>maxy = 23, maxx = 32, begy = 0, begx = 48\<rparr>)))
       = [''Alpha'', ''zeta'', ''a.txt'', ''b.txt'']"
proof -
  let ?s = "member_init 24 \<lparr>maxy = 23, maxx = 32, begy = 0, begx = 48\<rparr>"
  have sh: "showHidden ?s = False" by (simp add: member_init_def)
  have ok: "\<not> load_caught toy_fs disk_tidy False ''/d''"
    by (simp add: load_caught_def load_try_def toy_simps disk_tidy_def FileEntry_new_def
        starts_with_dot_def)
  have dis: "distinct (map (filename toy_fs) (fst (directory_iterator toy_fs disk_tidy ''/d'')))"
    by (simp add: toy_simps disk_tidy_def)
  have names: "map name (fst (loadDirectory toy_fs disk_tidy ''/d'' ?s))
       = [''Alpha'', ''zeta'', ''a.txt'', ''b.txt'']"
    by (simp add: loadDirectory_def load_target_def load_try_def toy_simps disk_tidy_def
        FileEntry_new_def starts_with_dot_def member_init_def)
  from loadDirectory_order_unless_caught [of toy_fs disk_tidy "''/d''" ?s] obtain ds fls where
    "fst (loadDirectory toy_fs disk_tidy ''/d'' ?s) = ds @ fls"
    "\<forall>d\<in>set ds. is_directory d" "\<forall>f\<in>set fls. \<not> is_directory f"
    "sorted_wrt (<) (map name ds) \<and> sorted_wrt (<) (map name fls)"
    using ok dis unfolding sh by blast
  then have "\<exists>ds fls. fst (loadDirectory toy_fs disk_tidy ''/d'' ?s) = ds @ fls
        \<and> (\<forall>d\<in>set ds. is_directory d) \<and> (\<forall>f\<in>set fls. \<not> is_directory f)
        \<and> sorted_wrt (<) (map name ds) \<and> sorted_wrt (<) (map name fls)"
    by blast
  with ok dis names show ?thesis by (intro conjI)
qed

text \<open>
  An exception in the \<^verbatim>\<open>try\<close> block. The first visible entry whose status cannot be
  read ends the load in the first loop: \<^verbatim>\<open>target\<close> is then the directories among the
  entries before it, in the order of the iteration, as neither \<^verbatim>\<open>std::sort\<close> has run.
  A directory that cannot be opened yields no entry and leaves the empty list.
\<close>

lemma load_pass_prefix:
  "\<forall>x\<in>set pre. \<not> blocked env fs shown x \<Longrightarrow>
   load_pass env fs shown want (pre @ rest) target
     = load_pass env fs shown want rest (target @ appended env fs shown want pre)"
proof (induction pre arbitrary: target)
  case Nil
  then show ?case by (simp add: appended_def)
next
  case (Cons x pre)
  from Cons.prems have x: "\<not> blocked env fs shown x" and pre: "\<forall>y\<in>set pre. \<not> blocked env fs shown y"
    by simp_all
  note IH = Cons.IH [OF pre]
  show ?case
  proof (cases "\<not> shown \<and> starts_with_dot (filename env x)")
    case True
    then have "\<not> kept env fs shown want x" by (auto simp: kept_def)
    with True IH [of target] show ?thesis by (auto simp: appended_def)
  next
    case visible: False
    with x obtain d where d: "fs_is_directory env fs x = Some d"
      by (auto simp: blocked_def)
    show ?thesis
    proof (cases "d = want")
      case True
      with d visible have k: "kept env fs shown want x" by (auto simp: kept_def)
      from entry_of_kept(1) [OF k] visible d True IH [of "target @ [entry_of env fs x]"] k
      show ?thesis by (auto simp: appended_def)
    next
      case False
      with d have "\<not> kept env fs shown want x" by (auto simp: kept_def)
      with visible d False IH [of target] show ?thesis by (auto simp: appended_def)
    qed
  qed
qed

lemma load_pass_blocked:
  "blocked env fs shown e \<Longrightarrow> load_pass env fs shown want (e # post) target = (target, True)"
  by (auto simp: blocked_def)

lemma loadDirectory_stops_at_unreadable:
  assumes it: "directory_iterator env fs p = (pre @ e # post, failed)"
    and pre: "\<forall>x\<in>set pre. \<not> blocked env fs (showHidden s) x"
    and e: "blocked env fs (showHidden s) e"
  shows "load_caught env fs (showHidden s) p"
    and "fst (loadDirectory env fs p s) = appended env fs (showHidden s) True pre"
proof -
  have "load_pass env fs (showHidden s) True (pre @ e # post) []
      = (appended env fs (showHidden s) True pre, True)"
    by (simp only: load_pass_prefix [OF pre] load_pass_blocked [OF e] append_Nil)
  then have "load_try env fs (showHidden s) p = (appended env fs (showHidden s) True pre, True)"
    by (simp add: load_try_def it)
  then show "load_caught env fs (showHidden s) p"
    and "fst (loadDirectory env fs p s) = appended env fs (showHidden s) True pre"
    by (simp_all add: load_caught_def loadDirectory_def load_target_def)
qed

lemma loadDirectory_cannot_open:
  assumes "directory_iterator env fs p = ([], True)"
  shows "load_caught env fs (showHidden s) p" and "fst (loadDirectory env fs p s) = []"
  using assms by (simp_all add: load_caught_def loadDirectory_def load_target_def load_try_def)

text \<open>
  Claim C4. \<^verbatim>\<open>loadDirectory\<close> sorts the directories and then the other entries, each
  run with its own \<^verbatim>\<open>std::sort\<close>, but both calls stand inside the \<^verbatim>\<open>try\<close> block.
  An exception that leaves the block before the first of them is swallowed by the empty
  handler, and the directories stay in the order of the iteration. Here the iteration of
  \<^verbatim>\<open>/d\<close> yields \<^verbatim>\<open>b\<close>, \<^verbatim>\<open>a\<close> and a link that points to itself, on which
  \<^verbatim>\<open>fs::is_directory\<close> throws: the load returns normally and the list is \<^verbatim>\<open>b\<close>,
  \<^verbatim>\<open>a\<close>, a run of directories that is not in lexicographic order.
\<close>

theorem loadDirectory_error_skips_sort:
  "directory_iterator toy_fs disk_loop ''/d'' = ([''/d/b'', ''/d/a'', ''/d/loop''], False)
   \<and> fs_is_directory toy_fs disk_loop ''/d/loop'' = None
   \<and> load_caught toy_fs disk_loop False ''/d''
   \<and> map (\<lambda>f. (name f, is_directory f))
        (fst (loadDirectory toy_fs disk_loop ''/d''
               (member_init 24 \<lparr>maxy = 23, maxx = 32, begy = 0, begx = 48\<rparr>)))
       = [(''b'', True), (''a'', True)]
   \<and> \<not> sorted (map name
        (fst (loadDirectory toy_fs disk_loop ''/d''
               (member_init 24 \<lparr>maxy = 23, maxx = 32, begy = 0, begx = 48\<rparr>))))"
  by (simp add: loadDirectory_def load_target_def load_caught_def load_try_def toy_simps
      disk_loop_def FileEntry_new_def starts_with_dot_def member_init_def)

text \<open>
  Claim C5. \<^verbatim>\<open>loadDirectory\<close> clears \<^verbatim>\<open>target\<close> before the \<^verbatim>\<open>try\<close> block and
  catches every exception, so no error is propagated, and a directory that cannot be
  opened (\<^verbatim>\<open>/gone\<close> below) leaves the empty list. The handler is empty, however: an
  exception later in the block leaves in \<^verbatim>\<open>target\<close> what was appended before it. Here
  the iteration of \<^verbatim>\<open>/d\<close> yields the directory \<^verbatim>\<open>sub\<close>, a file and a link that
  points to itself, on which \<^verbatim>\<open>fs::is_directory\<close> throws: the load meets the error
  and the list is not empty, it holds \<^verbatim>\<open>sub\<close>.
\<close>

theorem loadDirectory_error_keeps_entries:
  "directory_iterator toy_fs disk_partial ''/d'' = ([''/d/sub'', ''/d/f.txt'', ''/d/self''], False)
   \<and> fs_is_directory toy_fs disk_partial ''/d/self'' = None
   \<and> load_caught toy_fs disk_partial False ''/d''
   \<and> map (\<lambda>f. (name f, is_directory f))
        (fst (loadDirectory toy_fs disk_partial ''/d''
               (member_init 24 \<lparr>maxy = 23, maxx = 32, begy = 0, begx = 48\<rparr>)))
       = [(''sub'', True)]
   \<and> directory_iterator toy_fs disk_partial ''/gone'' = ([], True)
   \<and> load_caught toy_fs disk_partial False ''/gone''
   \<and> fst (loadDirectory toy_fs disk_partial ''/gone''
            (member_init 24 \<lparr>maxy = 23, maxx = 32, begy = 0, begx = 48\<rparr>)) = []"
  by (simp add: loadDirectory_def load_target_def load_caught_def load_try_def toy_simps
      disk_partial_def FileEntry_new_def starts_with_dot_def member_init_def)

lemma goUp_scan_found:
  assumes "i \<le> j" "j < length files" "name (files ! j) = old"
  shows "goUp_scan files old i sel < length files
     \<and> name (files ! goUp_scan files old i sel) = old
     \<and> i \<le> goUp_scan files old i sel
     \<and> (\<forall>k. i \<le> k \<and> k < goUp_scan files old i sel \<longrightarrow> name (files ! k) \<noteq> old)"
  using assms
proof (induction files old i sel rule: goUp_scan.induct)
  case (1 files old i sel)
  have lt: "i < length files" using "1.prems" by simp
  show ?case
  proof (cases "name (files ! i) = old")
    case True
    then have "goUp_scan files old i sel = i"
      using lt by (subst goUp_scan.simps) simp
    with True lt show ?thesis by auto
  next
    case False
    then have step: "goUp_scan files old i sel = goUp_scan files old (i + 1) sel"
      using lt by (subst goUp_scan.simps) simp
    have "i \<noteq> j" using False "1.prems" by auto
    then have "i + 1 \<le> j" using "1.prems" by simp
    from "1.IH" [OF lt False this "1.prems"(2,3)]
    have IH: "goUp_scan files old (i + 1) sel < length files"
      "name (files ! goUp_scan files old (i + 1) sel) = old"
      "i + 1 \<le> goUp_scan files old (i + 1) sel"
      "\<forall>k. i + 1 \<le> k \<and> k < goUp_scan files old (i + 1) sel \<longrightarrow> name (files ! k) \<noteq> old"
      by simp_all
    have "\<forall>k. i \<le> k \<and> k < goUp_scan files old (i + 1) sel \<longrightarrow> name (files ! k) \<noteq> old"
    proof (intro allI impI)
      fix k assume k: "i \<le> k \<and> k < goUp_scan files old (i + 1) sel"
      show "name (files ! k) \<noteq> old"
      proof (cases "k = i")
        case True
        with False show ?thesis by simp
      next
        case False
        with k have "i + 1 \<le> k" by simp
        with k IH(4) show ?thesis by blast
      qed
    qed
    with IH show ?thesis unfolding step by simp
  qed
qed

lemma goUp_scan_missing:
  assumes "\<forall>j. i \<le> j \<and> j < length files \<longrightarrow> name (files ! j) \<noteq> old"
  shows "goUp_scan files old i sel = sel"
  using assms
proof (induction files old i sel rule: goUp_scan.induct)
  case (1 files old i sel)
  show ?case
  proof (cases "i < length files")
    case True
    then have ne: "name (files ! i) \<noteq> old" using "1.prems" by simp
    then have "goUp_scan files old i sel = goUp_scan files old (i + 1) sel"
      using True by (subst goUp_scan.simps) simp
    moreover have "goUp_scan files old (i + 1) sel = sel"
      using "1.IH" [OF True ne] "1.prems" by simp
    ultimately show ?thesis by simp
  next
    case False
    then show ?thesis by (subst goUp_scan.simps) simp
  qed
qed

lemma reloadAll_currentFiles:
  "currentFiles (reloadAll env fs s) = load_target env fs (showHidden s) (currentPath s)"
  "currentPath (reloadAll env fs s) = currentPath s"
  "multiSelection (reloadAll env fs s) = {}"
  by (simp_all add: reloadAll_def loadParent_def loadDirectory_def)

text \<open>
  Claim C8. When the current directory has a parent other than itself, \<^verbatim>\<open>goUp\<close> makes
  the parent the current directory and reloads the catalog; afterwards the cursor is at
  the first entry whose display name is the file name of the directory left, when the
  new catalog has such an entry, and at index 0 otherwise.
\<close>

theorem goUp_reselects_child:
  assumes "has_parent_path env (currentPath s)"
      and "currentPath s \<noteq> parent_path env (currentPath s)"
  shows "currentPath (snd (goUp env fs s)) = parent_path env (currentPath s)
     \<and> currentFiles (snd (goUp env fs s))
         = load_target env fs (showHidden s) (parent_path env (currentPath s))
     \<and> (if \<exists>f\<in>set (currentFiles (snd (goUp env fs s))). name f = filename env (currentPath s)
         then selectedIndex (snd (goUp env fs s)) < length (currentFiles (snd (goUp env fs s)))
              \<and> name (currentFiles (snd (goUp env fs s)) ! selectedIndex (snd (goUp env fs s)))
                  = filename env (currentPath s)
              \<and> (\<forall>k. k < selectedIndex (snd (goUp env fs s)) \<longrightarrow>
                    name (currentFiles (snd (goUp env fs s)) ! k) \<noteq> filename env (currentPath s))
         else selectedIndex (snd (goUp env fs s)) = 0)"
proof -
  let ?parent = "parent_path env (currentPath s)"
  let ?old = "filename env (currentPath s)"
  let ?files = "load_target env fs (showHidden s) ?parent"
  let ?s' = "snd (goUp env fs s)"
  have cp: "currentPath ?s' = ?parent"
    and cf: "currentFiles ?s' = ?files"
    and sel: "selectedIndex ?s' = goUp_scan ?files ?old 0 0"
    using assms
    by (simp_all add: goUp_def clearDirectRender_def Let_def reloadAll_currentFiles)
  have third: "if \<exists>f\<in>set ?files. name f = ?old
         then goUp_scan ?files ?old 0 0 < length ?files
              \<and> name (?files ! goUp_scan ?files ?old 0 0) = ?old
              \<and> (\<forall>k. k < goUp_scan ?files ?old 0 0 \<longrightarrow> name (?files ! k) \<noteq> ?old)
         else goUp_scan ?files ?old 0 0 = 0"
  proof (cases "\<exists>f\<in>set ?files. name f = ?old")
    case True
    then obtain j where j: "j < length ?files" "name (?files ! j) = ?old"
      by (auto simp: in_set_conv_nth)
    from goUp_scan_found [of 0 j ?files ?old 0] j True show ?thesis by simp
  next
    case False
    then have "\<forall>j. 0 \<le> j \<and> j < length ?files \<longrightarrow> name (?files ! j) \<noteq> ?old"
      by auto
    from goUp_scan_missing [OF this] False show ?thesis by simp
  qed
  show ?thesis
    unfolding cp cf sel using third by simp
qed

theorem goUp_reselects_child_witness:
  "has_parent_path toy_fs ''/home/bob''
   \<and> ''/home/bob'' \<noteq> parent_path toy_fs ''/home/bob''
   \<and> filename toy_fs ''/home/bob'' = ''bob''
   \<and> currentPath (snd (goUp toy_fs disk_home
        ((member_init 24 \<lparr>maxy = 23, maxx = 32, begy = 0, begx = 48\<rparr>)\<lparr>currentPath := ''/home/bob''\<rparr>)))
       = ''/home''
   \<and> map name (currentFiles (snd (goUp toy_fs disk_home
        ((member_init 24 \<lparr>maxy = 23, maxx = 32, begy = 0, begx = 48\<rparr>)\<lparr>currentPath := ''/home/bob''\<rparr>))))
       = [''alice'', ''bob'', ''notes.txt'']
   \<and> selectedIndex (snd (goUp toy_fs disk_home
        ((member_init 24 \<lparr>maxy = 23, maxx = 32, begy = 0, begx = 48\<rparr>)\<lparr>currentPath := ''/home/bob''\<rparr>)))
       = 1"
proof -
  let ?s = "(member_init 24 \<lparr>maxy = 23, maxx = 32, begy = 0, begx = 48\<rparr>)\<lparr>currentPath := ''/home/bob''\<rparr>"
  let ?s' = "snd (goUp toy_fs disk_home ?s)"
  have cur: "currentPath ?s = ''/home/bob''" and sh: "showHidden ?s = False"
    by (simp_all add: member_init_def)
  have par: "parent_path toy_fs ''/home/bob'' = ''/home''"
    and fn: "filename toy_fs ''/home/bob'' = ''bob''"
    by (simp_all add: toy_fs_def toy_parent_def toy_filename_def)
  have h1: "has_parent_path toy_fs (currentPath ?s)"
    and h2: "currentPath ?s \<noteq> parent_path toy_fs (currentPath ?s)"
    unfolding cur by (simp_all add: has_parent_path_def par)
  have listing: "map name (load_target toy_fs disk_home False ''/home'') = [''alice'', ''bob'', ''notes.txt'']"
    by (simp add: load_target_def load_try_def toy_simps disk_home_def FileEntry_new_def
        starts_with_dot_def)
  note inst = goUp_reselects_child [OF h1 h2, of disk_home, unfolded cur sh par fn]
  have cp: "currentPath ?s' = ''/home''"
    by (rule inst [THEN conjunct1])
  have cf: "currentFiles ?s' = load_target toy_fs disk_home False ''/home''"
    by (rule inst [THEN conjunct2, THEN conjunct1])
  note third = inst [THEN conjunct2, THEN conjunct2]
  have names: "map name (currentFiles ?s') = [''alice'', ''bob'', ''notes.txt'']"
    unfolding cf by (rule listing)
  have "''bob'' \<in> set (map name (currentFiles ?s'))"
    unfolding names by simp
  then have ex: "\<exists>f\<in>set (currentFiles ?s'). name f = ''bob''"
    by auto
  have lt: "selectedIndex ?s' < length (currentFiles ?s')"
    and at: "name (currentFiles ?s' ! selectedIndex ?s') = ''bob''"
    using third ex by (simp_all only: if_True)
  have "length (map name (currentFiles ?s')) = 3"
    unfolding names by simp
  then have len: "length (currentFiles ?s') = 3" by simp
  from lt at have "map name (currentFiles ?s') ! selectedIndex ?s' = ''bob''"
    by simp
  then have pick: "[''alice'', ''bob'', ''notes.txt''] ! selectedIndex ?s' = ''bob''"
    unfolding names .
  have "selectedIndex ?s' = 0 \<or> selectedIndex ?s' = 1 \<or> selectedIndex ?s' = 2"
    using lt len by arith
  then have sel: "selectedIndex ?s' = 1"
    using pick by (elim disjE) simp_all
  from h1 h2 fn cp names sel show ?thesis
    unfolding cur by (intro conjI)
qed





lemma paste_loop_append:
  "paste_loop env cur moving (xs @ ys) acc =
     (case paste_loop env cur moving xs acc of
        Inl e \<Rightarrow> Inl e
      | Inr acc' \<Rightarrow> paste_loop env cur moving ys acc')"
  by (induction xs arbitrary: acc) (auto split: sum.splits)













text \<open>
  Claim C7. In copy mode, a clipboard path whose destination exists when the loop reaches
  it is skipped: the disk and \<^verbatim>\<open>successCount\<close> are after it what they were before
  it, so nothing is overwritten, and the loop goes on with the next path. When the
  destination is another path than the source the guard skips it without a call to the
  disk. When the destination is the source itself the guard lets it through to
  \<^verbatim>\<open>fs::copy\<close>, which the C++ standard makes fail for two equivalent paths; with an
  \<^verbatim>\<open>fs::copy\<close> that does so, the item is skipped as well. (The guard and the copy
  branch read the same in \<^verbatim>\<open>file_manager.cpp\<close>.)
\<close>

theorem paste_copy_skips_existing:
  assumes "paste_loop env cur False pre acc0 = Inr (fs, successCount)"
      and "fs_exists env fs (append_path env cur (filename env src)) = Some True"
      and "src = append_path env cur (filename env src) \<longrightarrow> (\<forall>r. fs_copy env fs src src r = (fs, False))"
  shows "paste_item env cur False src (fs, successCount) = Inr (fs, successCount)
     \<and> paste_loop env cur False (pre @ src # post) acc0
         = paste_loop env cur False post (fs, successCount)"
proof -
  have item: "paste_item env cur False src (fs, successCount) = Inr (fs, successCount)"
  proof (cases "src = append_path env cur (filename env src)")
    case False
    with assms(2) show ?thesis by (simp add: paste_item_def Let_def)
  next
    case True
    with assms(3) have contract: "\<forall>r. fs_copy env fs src src r = (fs, False)" by blast
    have same: "append_path env cur (filename env src) = src" using True by simp
    show ?thesis
      unfolding paste_item_def
      by (simp add: Let_def same assms(2) [unfolded same] contract split: option.splits)
  qed
  then show ?thesis
    by (simp add: paste_loop_append assms(1))
qed

theorem paste_copy_skips_existing_witness:
  "paste_loop toy_fs ''/dst'' False [] (disk_paste, 0) = Inr (disk_paste, 0)
   \<and> fs_exists toy_fs disk_paste (append_path toy_fs ''/dst'' (filename toy_fs ''/src/a.txt'')) = Some True
   \<and> ''/src/a.txt'' \<noteq> append_path toy_fs ''/dst'' (filename toy_fs ''/src/a.txt'')
   \<and> paste_item toy_fs ''/dst'' False ''/src/a.txt'' (disk_paste, 0) = Inr (disk_paste, 0)
   \<and> paste_loop toy_fs ''/dst'' False [''/src/a.txt'', ''/src/b''] (disk_paste, 0)
       = Inr (disk_paste @ [(''/dst/b'', Folder)], 1)
   \<and> ''/dst/a.txt'' = append_path toy_fs ''/dst'' (filename toy_fs ''/dst/a.txt'')
   \<and> (\<forall>r. fs_copy toy_fs disk_paste ''/dst/a.txt'' ''/dst/a.txt'' r = (disk_paste, False))
   \<and> paste_item toy_fs ''/dst'' False ''/dst/a.txt'' (disk_paste, 0) = Inr (disk_paste, 0)"
proof -
  have pre: "paste_loop toy_fs ''/dst'' False [] (disk_paste, 0) = Inr (disk_paste, 0)"
    by simp
  have dest1: "append_path toy_fs ''/dst'' (filename toy_fs ''/src/a.txt'') = ''/dst/a.txt''"
    and dest2: "append_path toy_fs ''/dst'' (filename toy_fs ''/dst/a.txt'') = ''/dst/a.txt''"
    by (simp_all add: toy_simps)
  have there: "fs_exists toy_fs disk_paste ''/dst/a.txt'' = Some True"
    by (simp add: toy_simps disk_paste_def)
  have there1: "fs_exists toy_fs disk_paste (append_path toy_fs ''/dst'' (filename toy_fs ''/src/a.txt''))
      = Some True"
    unfolding dest1 by (rule there)
  have there2: "fs_exists toy_fs disk_paste (append_path toy_fs ''/dst'' (filename toy_fs ''/dst/a.txt''))
      = Some True"
    unfolding dest2 by (rule there)
  have contract: "\<forall>r. fs_copy toy_fs disk_paste ''/dst/a.txt'' ''/dst/a.txt'' r = (disk_paste, False)"
    by (simp add: toy_simps disk_paste_def)
  have other: "''/src/a.txt'' \<noteq> append_path toy_fs ''/dst'' (filename toy_fs ''/src/a.txt'')"
    unfolding dest1 by simp
  have h3a: "''/src/a.txt'' = append_path toy_fs ''/dst'' (filename toy_fs ''/src/a.txt'')
      \<longrightarrow> (\<forall>r. fs_copy toy_fs disk_paste ''/src/a.txt'' ''/src/a.txt'' r = (disk_paste, False))"
    using other by simp
  have h3b: "''/dst/a.txt'' = append_path toy_fs ''/dst'' (filename toy_fs ''/dst/a.txt'')
      \<longrightarrow> (\<forall>r. fs_copy toy_fs disk_paste ''/dst/a.txt'' ''/dst/a.txt'' r = (disk_paste, False))"
    using contract by simp
  note first = paste_copy_skips_existing [OF pre there1 h3a, of "[''/src/b'']"]
  note second = paste_copy_skips_existing [OF pre there2 h3b, of "[]"]
  have item1: "paste_item toy_fs ''/dst'' False ''/src/a.txt'' (disk_paste, 0) = Inr (disk_paste, 0)"
    by (rule first [THEN conjunct1])
  have "paste_loop toy_fs ''/dst'' False [''/src/b''] (disk_paste, 0)
       = Inr (disk_paste @ [(''/dst/b'', Folder)], 1)"
    by (simp add: paste_item_def toy_simps disk_paste_def Let_def)
  with first [THEN conjunct2]
  have loop: "paste_loop toy_fs ''/dst'' False [''/src/a.txt'', ''/src/b''] (disk_paste, 0)
       = Inr (disk_paste @ [(''/dst/b'', Folder)], 1)"
    by simp
  have item2: "paste_item toy_fs ''/dst'' False ''/dst/a.txt'' (disk_paste, 0) = Inr (disk_paste, 0)"
    by (rule second [THEN conjunct1])
  from pre there1 other item1 loop dest2 [symmetric] contract item2
  show ?thesis by (intro conjI)
qed


lemma formatSize_returns: "\<exists>t. formatSize to_double printf_1f sz = Inr t"
proof -
  obtain dSize i where r: "formatSize_loop (to_double sz) 0 = (dSize, i)"
    by (cases "formatSize_loop (to_double sz) 0")
  have "0 \<le> snd (formatSize_loop (to_double sz) 0) \<and> snd (formatSize_loop (to_double sz) 0) \<le> 4"
    by (rule formatSize_loop_index) simp_all
  then have "0 \<le> i" "i \<le> 4" by (simp_all add: r)
  then show ?thesis
    by (simp add: formatSize_def r units_at_def units_def)
qed

lemma drawFromCache_nothing_else:
  "\<forall>x\<in>set (fst (drawFromCache ty s)). from_cache x"
  by (simp add: drawFromCache_def Let_def)

lemma drawPreview_begin_plain:
  assumes "drawPreview_begin to_double printf_1f s = Inr (painted, s1, todo)"
  shows "\<forall>x\<in>set painted. \<not> from_cache x"
proof -
  obtain t where t: "formatSize to_double printf_1f
      (size_bytes (currentFiles s ! selectedIndex s)) = Inr t"
    using formatSize_returns by blast
  show ?thesis
    using assms
    by (auto simp: drawPreview_begin_def clearDirectRender_def Let_def t
             split: if_splits)
qed

lemma drawPreview_begin_match:
  assumes "drawPreview_begin to_double printf_1f s = Inr (painted, s1, Paint_cache ty)"
  shows "selectedIndex s < length (currentFiles s)
     \<and> cachedPath s = path (currentFiles s ! selectedIndex s)
     \<and> cachedPath s1 = cachedPath s \<and> currentFiles s1 = currentFiles s
     \<and> selectedIndex s1 = selectedIndex s"
proof -
  obtain t where t: "formatSize to_double printf_1f
      (size_bytes (currentFiles s ! selectedIndex s)) = Inr t"
    using formatSize_returns by blast
  show ?thesis
    using assms
    by (auto simp: drawPreview_begin_def clearDirectRender_def Let_def t
             split: if_splits)
qed

lemma drawPreview_returns: "\<exists>r. drawPreview to_double printf_1f s = Inr r"
proof -
  obtain t where t: "formatSize to_double printf_1f
      (size_bytes (currentFiles s ! selectedIndex s)) = Inr t"
    using formatSize_returns by blast
  have "\<exists>r. drawPreview_begin to_double printf_1f s = Inr r"
    by (auto simp: drawPreview_begin_def clearDirectRender_def Let_def t)
  then show ?thesis
    by (auto simp: drawPreview_def split: prod.splits)
qed

lemma drawPreview_gate:
  assumes "drawPreview to_double printf_1f s = Inr (painted, s')"
      and "\<exists>x\<in>set painted. from_cache x"
  shows "selectedIndex s < length (currentFiles s)
     \<and> cachedPath s = path (currentFiles s ! selectedIndex s)"
proof -
  from assms(1) obtain p1 s1 todo p2 where
    b: "drawPreview_begin to_double printf_1f s = Inr (p1, s1, todo)"
    and e: "drawPreview_end todo s1 = (p2, s')" and p: "painted = p1 @ p2"
    by (auto simp: drawPreview_def split: sum.splits prod.splits)
  have "\<forall>x\<in>set p1. \<not> from_cache x"
    using drawPreview_begin_plain [OF b] .
  with assms(2) p have "p2 \<noteq> []" by auto
  with e obtain ty where "todo = Paint_cache ty"
    by (cases todo) (auto simp: drawPreview_end_def)
  with b drawPreview_begin_match show ?thesis by blast
qed

lemma formatSize_zero:
  "formatSize unsigned (\<lambda>r. ''0.0'') 0 = Inr ''0.0 B''"
  by (simp add: formatSize_def formatSize_loop.simps units_at_def units_def)

lemmas draw_simps =
  two_images_def member_init_def drawPreview_def drawPreview_begin_def
  drawPreview_end_def drawFromCache_def clearDirectRender_def startAsyncPreview_def
  worker_commit_def worker_signal_def formatSize_zero Let_def
  VIDEO_EXTS_def IMAGE_EXTS_def CODE_EXTS_def

text \<open>
  Claim C2. \<^verbatim>\<open>drawPreview\<close> paints from the cache only after it has found
  \<^verbatim>\<open>cachedPath\<close> equal to the path of the entry under the cursor, and paints nothing
  from the cache otherwise (\<open>drawPreview_gate\<close>, for a \<^verbatim>\<open>drawPreview\<close> that no worker
  interrupts). But the comparison and the painting are two critical sections, and a
  worker can commit between them. The run below: the cursor is on \<^verbatim>\<open>a.png\<close>, whose
  payload is cached; it moves to \<^verbatim>\<open>b.png\<close>, which dispatches a worker; it moves back
  to \<^verbatim>\<open>a.png\<close>; \<^verbatim>\<open>drawPreview\<close> finds the slot's path equal to the entry's and
  releases the lock; the worker of \<^verbatim>\<open>b.png\<close>, still the newest, commits;
  \<^verbatim>\<open>drawFromCache\<close> paints the payload of \<^verbatim>\<open>b.png\<close> while the cursor is on
  \<^verbatim>\<open>a.png\<close> and the slot's path is not the entry's.
\<close>

theorem drawPreview_race:
  "(let s1 = startAsyncPreview ''/d/a.png'' IMAGE 13 28 two_images;
        s2 = worker_signal 0 (worker_commit 0 ''QQ=='' [] s1);
        s3 = startAsyncPreview ''/d/b.png'' IMAGE 13 28 (s2\<lparr>selectedIndex := 1\<rparr>);
        s4 = s3\<lparr>selectedIndex := 0\<rparr>;
        s5 = worker_commit 1 ''Qg=='' [] s4
    in drawPreview unsigned (\<lambda>r. ''0.0'') two_images
         = Inr ([Scrub, Print 2 2 ''Details:'', Print 3 2 ''Name: a.png'', Print 4 2 ''Size: 0.0 B'',
                 Refresh, Print 10 4 ''Loading...'', Refresh], s1)
       \<and> run [Commit 0 ''QQ=='' [], Signal 0] s1 = Some s2
       \<and> drawPreview unsigned (\<lambda>r. ''0.0'') (s2\<lparr>selectedIndex := 1\<rparr>)
         = Inr ([Scrub, Print 2 2 ''Details:'', Print 3 2 ''Name: b.png'', Print 4 2 ''Size: 0.0 B'',
                 Refresh, Print 10 4 ''Loading...'', Refresh], s3)
       \<and> drawPreview_begin unsigned (\<lambda>r. ''0.0'') s4
         = Inr ([Scrub, Print 2 2 ''Details:'', Print 3 2 ''Name: a.png'', Print 4 2 ''Size: 0.0 B'',
                 Refresh], s4, Paint_cache IMAGE)
       \<and> exec (Commit 1 ''Qg=='' []) s4 = Some s5
       \<and> drawPreview_end (Paint_cache IMAGE) s5
         = ([CacheImage (sendKittyGraphics ''Qg=='' 0 48)], s5\<lparr>lastWasDirectRender := True\<rparr>)
       \<and> path (currentFiles s5 ! selectedIndex s5) = ''/d/a.png''
       \<and> cachedPath s5 = ''/d/b.png''
       \<and> cachedBase64 s4 = ''QQ=='')"
  unfolding Let_def
proof (intro conjI)
  let ?s1 = "startAsyncPreview ''/d/a.png'' IMAGE 13 28 two_images"
  let ?s2 = "worker_signal 0 (worker_commit 0 ''QQ=='' [] ?s1)"
  let ?s3 = "startAsyncPreview ''/d/b.png'' IMAGE 13 28 (?s2\<lparr>selectedIndex := 1\<rparr>)"
  let ?s4 = "?s3\<lparr>selectedIndex := 0\<rparr>"
  let ?s5 = "worker_commit 1 ''Qg=='' [] ?s4"
  show "drawPreview unsigned (\<lambda>r. ''0.0'') two_images
         = Inr ([Scrub, Print 2 2 ''Details:'', Print 3 2 ''Name: a.png'', Print 4 2 ''Size: 0.0 B'',
                 Refresh, Print 10 4 ''Loading...'', Refresh], ?s1)"
    by (simp add: draw_simps)
  show "run [Commit 0 ''QQ=='' [], Signal 0] ?s1 = Some ?s2"
    by (simp add: draw_simps)
  show "drawPreview unsigned (\<lambda>r. ''0.0'') (?s2\<lparr>selectedIndex := 1\<rparr>)
         = Inr ([Scrub, Print 2 2 ''Details:'', Print 3 2 ''Name: b.png'', Print 4 2 ''Size: 0.0 B'',
                 Refresh, Print 10 4 ''Loading...'', Refresh], ?s3)"
    by (simp add: draw_simps)
  show "drawPreview_begin unsigned (\<lambda>r. ''0.0'') ?s4
         = Inr ([Scrub, Print 2 2 ''Details:'', Print 3 2 ''Name: a.png'', Print 4 2 ''Size: 0.0 B'',
                 Refresh], ?s4, Paint_cache IMAGE)"
    by (simp add: draw_simps)
  show "exec (Commit 1 ''Qg=='' []) ?s4 = Some ?s5"
    by (simp add: draw_simps)
  show "drawPreview_end (Paint_cache IMAGE) ?s5
         = ([CacheImage (sendKittyGraphics ''Qg=='' 0 48)], ?s5\<lparr>lastWasDirectRender := True\<rparr>)"
    by (simp add: draw_simps)
  show "path (currentFiles ?s5 ! selectedIndex ?s5) = ''/d/a.png''"
    by (simp add: draw_simps)
  show "cachedPath ?s5 = ''/d/b.png''"
    by (simp add: draw_simps)
  show "cachedBase64 ?s4 = ''QQ==''"
    by (simp add: draw_simps)
qed

end
